theory Spec2Isabelle
  imports Complex_Main
begin

section \<open>Python text and exceptions\<close>

text \<open>
  A Python \<open>str\<close> is a sequence of Unicode code points, so text is modelled as a list of
  code points (natural numbers). \<open>ascii\<close> turns an ASCII literal into such a list; the
  non-ASCII string constants of \<open>app.py\<close> are written out code point by code point.
\<close>

type_synonym pystr = "nat list"

definition ascii :: "string \<Rightarrow> pystr" where
  "ascii s = map of_char s"

text \<open>The exceptions that the modelled code can raise.\<close>

datatype exn = JSONDecodeError | TypeError | IndexError | KeyError | ValueError | OSError

text \<open>
  \<open>str.isspace\<close> for one code point: the characters that \<open>str.strip()\<close> removes when it
  is called without an argument.
\<close>

definition is_space :: "nat \<Rightarrow> bool" where
  "is_space c \<longleftrightarrow>
     (9 \<le> c \<and> c \<le> 13) \<or> (28 \<le> c \<and> c \<le> 32) \<or> c = 133 \<or> c = 160 \<or> c = 5760 \<or>
     (8192 \<le> c \<and> c \<le> 8202) \<or> c = 8232 \<or> c = 8233 \<or> c = 8239 \<or> c = 8287 \<or>
     c = 12288"

definition strip :: "pystr \<Rightarrow> pystr" where
  "strip s = rev (dropWhile is_space (rev (dropWhile is_space s)))"

definition startswith :: "'a list \<Rightarrow> 'a list \<Rightarrow> bool" where
  "startswith s p \<longleftrightarrow> take (length p) s = p"

text \<open>
  \<open>s.find(sub)\<close>: the lowest index at which \<open>sub\<close> occurs in \<open>s\<close>; Python's \<open>-1\<close> is
  \<open>None\<close> here.
\<close>

fun str_find :: "'a list \<Rightarrow> 'a list \<Rightarrow> nat option" where
  "str_find [] sub = (if sub = [] then Some 0 else None)"
| "str_find (c # cs) sub =
     (if startswith (c # cs) sub then Some 0 else map_option Suc (str_find cs sub))"

text \<open>\<open>sub in s\<close> for two strings.\<close>

definition contains :: "'a list \<Rightarrow> 'a list \<Rightarrow> bool" where
  "contains s sub \<longleftrightarrow> str_find s sub \<noteq> None"

text \<open>\<open>s.split(sep, 1)\<close> for a non-empty separator: at most one split, at the first occurrence.\<close>

definition split1 :: "'a list \<Rightarrow> 'a list \<Rightarrow> 'a list list" where
  "split1 s sep =
     (case str_find s sep of
        None \<Rightarrow> [s]
      | Some i \<Rightarrow> [take i s, drop (i + length sep) s])"

text \<open>\<open>xs[i]\<close> for a non-negative index: out of range raises \<open>IndexError\<close>.\<close>

definition index :: "'a list \<Rightarrow> nat \<Rightarrow> exn + 'a" where
  "index xs i = (if i < length xs then Inr (xs ! i) else Inl IndexError)"

section \<open>The log interpreter: \<open>extract_answer\<close>\<close>

definition ANSWER :: pystr where
  "ANSWER = ascii ''Answer:''"

text \<open>
  \<^verbatim>\<open>
  def extract_answer(logs):
      answer = ""
      for log in logs:
          if "Answer:" in log:
              answer = log.split("Answer:", 1)[1].strip()
              break
      return answer
  \<close>
\<close>

fun extract_answer :: "pystr list \<Rightarrow> exn + pystr" where
  "extract_answer [] = Inr []"
| "extract_answer (line # logs) =
     (if contains line ANSWER
      then (case index (split1 line ANSWER) 1 of
              Inl e \<Rightarrow> Inl e
            | Inr part \<Rightarrow> Inr (strip part))
      else extract_answer logs)"

section \<open>Process handles and \<open>status_message\<close>\<close>

text \<open>
  A \<open>subprocess.Popen\<close> handle, as far as \<open>app.py\<close> uses it: the command line, the
  environment it was started with, the cached \<open>returncode\<close> (\<open>None\<close> until an exit has
  been observed), and whether \<open>terminate()\<close> has been called on it.
\<close>

record process =
  args :: "pystr list"
  penv :: "pystr \<rightharpoonup> pystr"
  returncode :: "int option"
  sigterm_sent :: bool

text \<open>
  \<open>process.poll()\<close>: a cached return code is returned as it is; otherwise the operating
  system is asked, and its answer \<open>obs\<close> (\<open>None\<close> while the child is alive, its exit code
  once it has exited) is cached. The answer of the operating system is an input of the
  model.
\<close>

definition poll :: "int option \<Rightarrow> process \<Rightarrow> process" where
  "poll obs p = (case returncode p of Some c \<Rightarrow> p | None \<Rightarrow> p\<lparr>returncode := obs\<rparr>)"

definition terminate :: "process \<Rightarrow> process" where
  "terminate p = p\<lparr>sigterm_sent := True\<rparr>"

text \<open>\<open>str(n)\<close> for an integer: decimal digits, with a leading minus sign when negative.\<close>

fun str_nat :: "nat \<Rightarrow> pystr" where
  "str_nat n = (if n < 10 then [48 + n] else str_nat (n div 10) @ [48 + n mod 10])"

declare str_nat.simps [simp del]

definition str_int :: "int \<Rightarrow> pystr" where
  "str_int i = (if i < 0 then 45 # str_nat (nat (- i)) else str_nat (nat i))"

text \<open>
  The three status texts. \<open>STATUS_RUNNING\<close> is U+23F3, a space, U+6B63 U+5728 U+8FD0
  U+884C and three full stops; \<open>STATUS_OK\<close> is U+2705, a space, U+6267 U+884C U+6210
  U+529F; \<open>STATUS_FAILED\<close> is U+274C, a space, U+6267 U+884C U+5931 U+8D25, a space, an
  opening parenthesis, U+8FD4 U+56DE U+7801, a colon and a space, then the return code and
  a closing parenthesis.
\<close>

definition STATUS_RUNNING :: pystr where
  "STATUS_RUNNING = [9203, 32, 27491, 22312, 36816, 34892, 46, 46, 46]"

definition STATUS_OK :: pystr where
  "STATUS_OK = [9989, 32, 25191, 34892, 25104, 21151]"

definition STATUS_FAILED :: "int \<Rightarrow> pystr" where
  "STATUS_FAILED code =
     [10060, 32, 25191, 34892, 22833, 36133, 32, 40, 36820, 22238, 30721, 58, 32]
       @ str_int code @ [41]"

text \<open>
  \<^verbatim>\<open>
  def status_message(process):
      if process.poll() is None:
          return <STATUS_RUNNING>
      elif process.returncode == 0:
          return <STATUS_OK>
      else:
          return f"<STATUS_FAILED prefix>{process.returncode})"
  \<close>
  The handle is returned as well, since \<open>poll\<close> may have cached a return code in it.
\<close>

definition status_message :: "int option \<Rightarrow> process \<Rightarrow> pystr \<times> process" where
  "status_message obs p =
     (let p' = poll obs p in
      case returncode p' of
        None \<Rightarrow> (STATUS_RUNNING, p')
      | Some code \<Rightarrow> if code = 0 then (STATUS_OK, p') else (STATUS_FAILED code, p'))"

text \<open>Reading a decimal numeral back, to state what \<open>str_int\<close> writes.\<close>

definition decimal_value :: "pystr \<Rightarrow> nat" where
  "decimal_value ds = foldl (\<lambda>acc d. 10 * acc + (d - 48)) 0 ds"

definition int_value :: "pystr \<Rightarrow> int" where
  "int_value s = (case s of
       [] \<Rightarrow> 0
     | c # cs \<Rightarrow> if c = 45 then - int (decimal_value cs) else int (decimal_value (c # cs)))"

section \<open>JSON values and \<open>json.loads\<close>\<close>

text \<open>
  What \<open>json.loads\<close> returns. An integer literal becomes a Python \<open>int\<close>; a literal with
  a fraction or an exponent, and \<open>NaN\<close>, \<open>Infinity\<close> and \<open>-Infinity\<close>, become a \<open>float\<close>,
  which is kept here as its literal text. A JSON object becomes a \<open>dict\<close>: the pairs are
  kept in the order of the text, and a lookup takes the last pair of a key, as building
  the \<open>dict\<close> does.
\<close>

datatype json =
    JNull
  | JBool bool
  | JInt int
  | JFloat pystr
  | JString pystr
  | JArray "json list"
  | JObject "(pystr \<times> json) list"

datatype token =
    TLBrack | TRBrack | TLBrace | TRBrace | TComma | TColon
  | TStr pystr
  | TAtom json

definition is_digit :: "nat \<Rightarrow> bool" where
  "is_digit c \<longleftrightarrow> 48 \<le> c \<and> c \<le> 57"

definition hex_digit :: "nat \<Rightarrow> nat option" where
  "hex_digit c =
     (if 48 \<le> c \<and> c \<le> 57 then Some (c - 48)
      else if 97 \<le> c \<and> c \<le> 102 then Some (c - 87)
      else if 65 \<le> c \<and> c \<le> 70 then Some (c - 55)
      else None)"

text \<open>The four hexadecimal digits of a \<open>\uXXXX\<close> escape.\<close>

definition hex4 :: "pystr \<Rightarrow> nat option" where
  "hex4 s =
     (case s of
        a # b # c # d # _ \<Rightarrow>
          (case (hex_digit a, hex_digit b, hex_digit c, hex_digit d) of
             (Some x, Some y, Some z, Some w) \<Rightarrow> Some (((x * 16 + y) * 16 + z) * 16 + w)
           | _ \<Rightarrow> None)
      | _ \<Rightarrow> None)"

text \<open>The one-letter escapes: quote, backslash, slash, b, f, n, r, t.\<close>

definition unescape :: "nat \<Rightarrow> nat option" where
  "unescape e =
     (if e = 34 then Some 34 else if e = 92 then Some 92 else if e = 47 then Some 47
      else if e = 98 then Some 8 else if e = 102 then Some 12 else if e = 110 then Some 10
      else if e = 114 then Some 13 else if e = 116 then Some 9 else None)"

text \<open>
  The body of a string literal, after its opening quote, in the decoder's strict mode:
  the decoded text and the number of code points read, closing quote included. A control
  character, an unknown escape and a missing closing quote are errors. A \<open>\uXXXX\<close> escape
  of a high surrogate directly followed by one of a low surrogate is one code point.
\<close>

fun scanstring :: "pystr \<Rightarrow> nat \<Rightarrow> pystr \<Rightarrow> (pystr \<times> nat) option" where
  "scanstring acc n [] = None"
| "scanstring acc n (c # cs) =
     (if c = 34 then Some (rev acc, Suc n)
      else if c = 92 then
        (case cs of
           [] \<Rightarrow> None
         | e # r \<Rightarrow>
             if e = 117 then
               (case hex4 r of
                  None \<Rightarrow> None
                | Some u \<Rightarrow>
                    if 55296 \<le> u \<and> u \<le> 56319 \<and> startswith (drop 4 r) [92, 117] then
                      (case hex4 (drop 6 r) of
                         None \<Rightarrow> None
                       | Some u2 \<Rightarrow>
                           if 56320 \<le> u2 \<and> u2 \<le> 57343
                           then scanstring
                                  ((65536 + ((u - 55296) * 1024 + (u2 - 56320))) # acc)
                                  (n + 12) (drop 10 r)
                           else scanstring (u # acc) (n + 6) (drop 4 r))
                    else scanstring (u # acc) (n + 6) (drop 4 r))
             else
               (case unescape e of
                  None \<Rightarrow> None
                | Some x \<Rightarrow> scanstring (x # acc) (n + 2) r))
      else if c < 32 then None
      else scanstring (c # acc) (Suc n) cs)"

text \<open>
  A number literal at the start of the text, by the decoder's pattern
  \<^verbatim>\<open>(-?(?:0|[1-9][0-9]*))(\.[0-9]+)?([eE][-+]?[0-9]+)?\<close>:
  the value and the length of the literal. The fraction and the exponent are taken only
  when at least one digit follows.
\<close>

definition int_part :: "pystr \<Rightarrow> pystr option" where
  "int_part s =
     (case s of
        [] \<Rightarrow> None
      | c # cs \<Rightarrow>
          if c = 48 then Some [48]
          else if is_digit c then Some (c # takeWhile is_digit cs)
          else None)"

definition frac_part :: "pystr \<Rightarrow> pystr" where
  "frac_part s =
     (case s of
        c # d # ds \<Rightarrow> if c = 46 \<and> is_digit d then c # d # takeWhile is_digit ds else []
      | _ \<Rightarrow> [])"

definition exp_part :: "pystr \<Rightarrow> pystr" where
  "exp_part s =
     (case s of
        [] \<Rightarrow> []
      | e # r \<Rightarrow>
          if e = 101 \<or> e = 69 then
            (case r of
               [] \<Rightarrow> []
             | g # ds \<Rightarrow>
                 if g = 45 \<or> g = 43 then
                   (case ds of
                      [] \<Rightarrow> []
                    | d # ds' \<Rightarrow> if is_digit d then e # g # d # takeWhile is_digit ds' else [])
                 else if is_digit g then e # g # takeWhile is_digit ds
                 else [])
          else [])"

definition scan_number :: "pystr \<Rightarrow> (json \<times> nat) option" where
  "scan_number s =
     (let sign = (if startswith s [45] then [45] else []) in
      case int_part (drop (length sign) s) of
        None \<Rightarrow> None
      | Some ip \<Rightarrow>
          (let integer = sign @ ip;
               frac = frac_part (drop (length integer) s);
               ex = exp_part (drop (length integer + length frac) s)
           in if frac = [] \<and> ex = []
              then Some (JInt (int_value integer), length integer)
              else Some (JFloat (integer @ frac @ ex), length (integer @ frac @ ex))))"

definition is_json_ws :: "nat \<Rightarrow> bool" where
  "is_json_ws c \<longleftrightarrow> c = 32 \<or> c = 9 \<or> c = 10 \<or> c = 13"

definition cons_token :: "token \<Rightarrow> token list option \<Rightarrow> token list option" where
  "cons_token t r = map_option ((#) t) r"

text \<open>
  The token at the start of a text that does not begin with whitespace, and the number of
  code points it takes, in the order in which the decoder tries the alternatives at a
  position: string, object and array brackets, \<open>null\<close>, \<open>true\<close>, \<open>false\<close>, a number,
  \<open>NaN\<close>, \<open>Infinity\<close>, \<open>-Infinity\<close>. \<open>None\<close> is a \<open>JSONDecodeError\<close>.
\<close>

definition next_token :: "pystr \<Rightarrow> (token \<times> nat) option" where
  "next_token s =
     (case s of
        [] \<Rightarrow> None
      | c # cs \<Rightarrow>
          if c = 34 then
            (case scanstring [] 0 cs of
               None \<Rightarrow> None
             | Some (str, n) \<Rightarrow> Some (TStr str, Suc n))
          else if c = 123 then Some (TLBrace, 1)
          else if c = 125 then Some (TRBrace, 1)
          else if c = 91 then Some (TLBrack, 1)
          else if c = 93 then Some (TRBrack, 1)
          else if c = 44 then Some (TComma, 1)
          else if c = 58 then Some (TColon, 1)
          else if startswith s (ascii ''null'') then Some (TAtom JNull, 4)
          else if startswith s (ascii ''true'') then Some (TAtom (JBool True), 4)
          else if startswith s (ascii ''false'') then Some (TAtom (JBool False), 5)
          else
            (case scan_number s of
               Some (v, n) \<Rightarrow> Some (TAtom v, n)
             | None \<Rightarrow>
                 if startswith s (ascii ''NaN'') then Some (TAtom (JFloat (ascii ''NaN'')), 3)
                 else if startswith s (ascii ''Infinity'')
                   then Some (TAtom (JFloat (ascii ''Infinity'')), 8)
                 else if startswith s (ascii ''-Infinity'')
                   then Some (TAtom (JFloat (ascii ''-Infinity'')), 9)
                 else None))"

text \<open>The text as a sequence of tokens, with the whitespace between them skipped.\<close>

fun lex :: "pystr \<Rightarrow> token list option" where
  "lex [] = Some []"
| "lex (c # cs) =
     (if is_json_ws c then lex cs
      else
        (case next_token (c # cs) of
           None \<Rightarrow> None
         | Some (t, n) \<Rightarrow> cons_token t (lex (drop (n - 1) cs))))"

text \<open>
  The grammar, as a machine over the tokens with a stack of the containers that are open.
  \<open>FArr\<close> holds the elements of an open array, \<open>FObj\<close> the members of an open object, and
  \<open>FKey\<close> those members and the key whose value is being read; all in reverse.
\<close>

datatype frame =
    FArr "json list"
  | FObj "(pystr \<times> json) list"
  | FKey "(pystr \<times> json) list" pystr

datatype mode =
    MValue          \<comment> \<open>a value must follow\<close>
  | MValueOrClose   \<comment> \<open>just after an opening bracket: a value or the closing bracket\<close>
  | MKeyOrClose     \<comment> \<open>just after an opening brace: a key or the closing brace\<close>
  | MKey            \<comment> \<open>after a comma in an object: a key\<close>
  | MColon          \<comment> \<open>after a key: the colon\<close>
  | MAfter          \<comment> \<open>after a value in a container: a comma or the closing token\<close>
  | MDone json      \<comment> \<open>the document is complete\<close>

text \<open>A value is complete: it is the document, an array element, or a member's value.\<close>

fun push_value :: "json \<Rightarrow> frame list \<Rightarrow> (mode \<times> frame list) option" where
  "push_value v [] = Some (MDone v, [])"
| "push_value v (FArr xs # st) = Some (MAfter, FArr (v # xs) # st)"
| "push_value v (FKey ms k # st) = Some (MAfter, FObj ((k, v) # ms) # st)"
| "push_value v (FObj ms # st) = None"

fun begin_value :: "token \<Rightarrow> frame list \<Rightarrow> (mode \<times> frame list) option" where
  "begin_value TLBrack st = Some (MValueOrClose, FArr [] # st)"
| "begin_value TLBrace st = Some (MKeyOrClose, FObj [] # st)"
| "begin_value (TStr s) st = push_value (JString s) st"
| "begin_value (TAtom v) st = push_value v st"
| "begin_value _ st = None"

fun close_array :: "frame list \<Rightarrow> (mode \<times> frame list) option" where
  "close_array (FArr xs # st) = push_value (JArray (rev xs)) st"
| "close_array _ = None"

fun close_object :: "frame list \<Rightarrow> (mode \<times> frame list) option" where
  "close_object (FObj ms # st) = push_value (JObject (rev ms)) st"
| "close_object _ = None"

fun begin_key :: "token \<Rightarrow> frame list \<Rightarrow> (mode \<times> frame list) option" where
  "begin_key (TStr k) (FObj ms # st) = Some (MColon, FKey ms k # st)"
| "begin_key _ _ = None"

fun step :: "mode \<Rightarrow> frame list \<Rightarrow> token \<Rightarrow> (mode \<times> frame list) option" where
  "step MValue st t = begin_value t st"
| "step MValueOrClose st t = (if t = TRBrack then close_array st else begin_value t st)"
| "step MKeyOrClose st t = (if t = TRBrace then close_object st else begin_key t st)"
| "step MKey st t = begin_key t st"
| "step MColon st t = (if t = TColon then Some (MValue, st) else None)"
| "step MAfter st t =
     (if t = TComma then
        (case st of
           FArr xs # _ \<Rightarrow> Some (MValue, st)
         | FObj ms # _ \<Rightarrow> Some (MKey, st)
         | _ \<Rightarrow> None)
      else if t = TRBrack then close_array st
      else if t = TRBrace then close_object st
      else None)"
| "step (MDone v) st t = None"

fun parse :: "mode \<Rightarrow> frame list \<Rightarrow> token list \<Rightarrow> json option" where
  "parse m st [] = (case m of MDone v \<Rightarrow> Some v | _ \<Rightarrow> None)"
| "parse m st (t # ts) =
     (case step m st t of None \<Rightarrow> None | Some (m', st') \<Rightarrow> parse m' st' ts)"

text \<open>Whether a frame is that of an open array.\<close>

fun is_arr :: "frame \<Rightarrow> bool" where
  "is_arr (FArr xs) = True"
| "is_arr _ = False"

text \<open>\<open>json.loads(s)\<close> for a \<open>str\<close>: the value, or \<open>JSONDecodeError\<close>.\<close>

definition json_loads :: "pystr \<Rightarrow> exn + json" where
  "json_loads s =
     (case lex s of
        None \<Rightarrow> Inl JSONDecodeError
      | Some ts \<Rightarrow>
          (case parse MValue [] ts of
             None \<Rightarrow> Inl JSONDecodeError
           | Some v \<Rightarrow> Inr v))"

section \<open>The log interpreter: \<open>extract_chat_history\<close>\<close>

definition CHAT_HISTORY :: pystr where
  "CHAT_HISTORY = ascii ''chat_history''"

text \<open>The two display labels: U+7528 U+6237 for the user, U+52A9 U+624B for the assistant.\<close>

definition LABEL_USER :: pystr where
  "LABEL_USER = [29992, 25143]"

definition LABEL_ASSISTANT :: pystr where
  "LABEL_ASSISTANT = [21161, 25163]"

text \<open>
  \<open>d[key]\<close> and \<open>key in d\<close> on the \<open>dict\<close> of a JSON object: the last pair of a key is
  the one the \<open>dict\<close> holds.
\<close>

definition dict_get :: "(pystr \<times> json) list \<Rightarrow> pystr \<rightharpoonup> json" where
  "dict_get kvs key = map_of (rev kvs) key"

text \<open>
  \<open>key in msg\<close> for a string \<open>key\<close> and a decoded value: key membership for a \<open>dict\<close>,
  substring test for a \<open>str\<close>, element membership for a \<open>list\<close>, and \<open>TypeError\<close> for a
  number, a boolean and \<open>None\<close>.
\<close>

fun key_in :: "pystr \<Rightarrow> json \<Rightarrow> exn + bool" where
  "key_in key (JObject kvs) = Inr (dict_get kvs key \<noteq> None)"
| "key_in key (JString s) = Inr (contains s key)"
| "key_in key (JArray xs) = Inr (JString key \<in> set xs)"
| "key_in key _ = Inl TypeError"

text \<open>
  \<open>msg[key]\<close> for a string \<open>key\<close>: a \<open>dict\<close> gives the value or \<open>KeyError\<close>; every other
  value raises \<open>TypeError\<close>.
\<close>

fun subscript :: "json \<Rightarrow> pystr \<Rightarrow> exn + json" where
  "subscript (JObject kvs) key =
     (case dict_get kvs key of None \<Rightarrow> Inl KeyError | Some v \<Rightarrow> Inr v)"
| "subscript _ key = Inl TypeError"

text \<open>
  What \<open>for msg in chat_data\<close> iterates over: the elements of a \<open>list\<close>, the keys of a
  \<open>dict\<close> in order of first insertion, the characters of a \<open>str\<close>; the other values are
  not iterable.
\<close>

fun iterate :: "json \<Rightarrow> exn + json list" where
  "iterate (JArray xs) = Inr xs"
| "iterate (JObject kvs) = Inr (map JString (rev (remdups (rev (map fst kvs)))))"
| "iterate (JString s) = Inr (map (\<lambda>c. JString [c]) s)"
| "iterate _ = Inl TypeError"

text \<open>
  \<^verbatim>\<open>
  formatted_chat = []
  for msg in chat_data:
      if "role" in msg and "content" in msg:
          role = <LABEL_USER> if msg["role"] == "user" else <LABEL_ASSISTANT>
          formatted_chat.append([role, msg["content"]])
  return formatted_chat
  \<close>
  One element of the transcript is the pair of the label and the content.
\<close>

type_synonym transcript = "(pystr \<times> json) list"

definition format_msg :: "json \<Rightarrow> exn + (pystr \<times> json) option" where
  "format_msg msg =
     (case key_in (ascii ''role'') msg of
        Inl e \<Rightarrow> Inl e
      | Inr False \<Rightarrow> Inr None
      | Inr True \<Rightarrow>
          (case key_in (ascii ''content'') msg of
             Inl e \<Rightarrow> Inl e
           | Inr False \<Rightarrow> Inr None
           | Inr True \<Rightarrow>
               (case subscript msg (ascii ''role'') of
                  Inl e \<Rightarrow> Inl e
                | Inr r \<Rightarrow>
                    (case subscript msg (ascii ''content'') of
                       Inl e \<Rightarrow> Inl e
                     | Inr c \<Rightarrow>
                         Inr (Some (if r = JString (ascii ''user'') then LABEL_USER
                                    else LABEL_ASSISTANT, c))))))"

fun format_chat :: "transcript \<Rightarrow> json list \<Rightarrow> exn + transcript" where
  "format_chat formatted_chat [] = Inr formatted_chat"
| "format_chat formatted_chat (msg # msgs) =
     (case format_msg msg of
        Inl e \<Rightarrow> Inl e
      | Inr None \<Rightarrow> format_chat formatted_chat msgs
      | Inr (Some entry) \<Rightarrow> format_chat (formatted_chat @ [entry]) msgs)"

text \<open>
  \<^verbatim>\<open>
  for j in range(i+1, min(i+10, len(logs))):
      end_idx = logs[j].find("]")
      if end_idx != -1:
          json_str += logs[j][:end_idx+1]
          break
  \<close>
  over the lines \<open>logs[i+1]\<close>, ..., given as a list: the piece that is appended, if any.
\<close>

fun closing_piece :: "pystr list \<Rightarrow> pystr option" where
  "closing_piece [] = None"
| "closing_piece (l # ls) =
     (case str_find l [93] of
        None \<Rightarrow> closing_piece ls
      | Some end_idx \<Rightarrow> Some (take (end_idx + 1) l))"

text \<open>
  \<^verbatim>\<open>
  json_str = log[start_idx:].strip()
  if json_str[-1] != "]" and i+1 < len(logs):
      <the loop above>
  \<close>
  with \<open>line\<close> for the source's \<open>log\<close> and \<open>rest\<close> for the lines after it. \<open>json_str[-1]\<close> raises \<open>IndexError\<close> on an empty
  string.
\<close>

definition assemble :: "pystr \<Rightarrow> nat \<Rightarrow> pystr list \<Rightarrow> exn + pystr" where
  "assemble line start_idx rest =
     (let json_str = strip (drop start_idx line) in
      if json_str = [] then Inl IndexError
      else if last json_str \<noteq> 93 \<and> rest \<noteq> [] then
        (case closing_piece (take 9 rest) of
           None \<Rightarrow> Inr json_str
         | Some piece \<Rightarrow> Inr (json_str @ piece))
      else Inr json_str)"

text \<open>The body of the inner \<open>try\<close>: decode, then format.\<close>

definition decode_chat :: "pystr \<Rightarrow> exn + transcript" where
  "decode_chat json_str =
     (case json_loads json_str of
        Inl e \<Rightarrow> Inl e
      | Inr chat_data \<Rightarrow>
          (case iterate chat_data of
             Inl e \<Rightarrow> Inl e
           | Inr msgs \<Rightarrow> format_chat [] msgs))"

text \<open>
  The body of the outer \<open>try\<close>, over the lines from \<open>logs[i]\<close> on. The inner handler
  catches \<open>JSONDecodeError\<close> only, and the loop then goes on to the next line; any other
  exception leaves the loop.
\<close>

fun scan_logs :: "pystr list \<Rightarrow> exn + transcript option" where
  "scan_logs [] = Inr None"
| "scan_logs (line # rest) =
     (if contains line CHAT_HISTORY then
        (case str_find line [91] of
           None \<Rightarrow> scan_logs rest
         | Some start_idx \<Rightarrow>
             (case assemble line start_idx rest of
                Inl e \<Rightarrow> Inl e
              | Inr json_str \<Rightarrow>
                  (case decode_chat json_str of
                     Inl e \<Rightarrow> if e = JSONDecodeError then scan_logs rest else Inl e
                   | Inr formatted_chat \<Rightarrow> Inr (Some formatted_chat))))
      else scan_logs rest)"

text \<open>
  Every exception of the model is a subclass of Python's \<open>Exception\<close>, which is what the
  outer handler catches.
\<close>

fun is_Exception :: "exn \<Rightarrow> bool" where
  "is_Exception e = True"

text \<open>
  \<^verbatim>\<open>
  def extract_chat_history(logs):
      try:
          <scan_logs>
      except Exception:
          pass
      return None
  \<close>
\<close>

definition extract_chat_history :: "pystr list \<Rightarrow> exn + transcript option" where
  "extract_chat_history logs =
     (case scan_logs logs of
        Inl e \<Rightarrow> if is_Exception e then Inr None else Inl e
      | Inr r \<Rightarrow> Inr r)"

section \<open>The session driver: \<open>run_script\<close>\<close>

text \<open>The table \<open>SCRIPTS\<close>; two of its labels contain non-ASCII characters.\<close>

definition SCRIPTS :: "(pystr \<times> pystr) list" where
  "SCRIPTS =
     [([81, 119, 101, 110, 32, 77, 105, 110, 105, 32, 40, 20013, 25991, 41],
         ascii ''run_qwen_mini_zh.py''),
      (ascii ''Qwen'', ascii ''run_qwen.py''),
      (ascii ''Mini'', ascii ''run_mini.py''),
      (ascii ''DeepSeek'', ascii ''run_deepseek.py''),
      ([40664, 35748], ascii ''run.py''),
      (ascii ''GAIA Roleplaying'', ascii ''run_gaia_roleplaying.py'')]"

text \<open>
  The state that \<open>app.py\<close> shares between calls: the global log queue (oldest line
  first), the global process slot, the process environment \<open>os.environ\<close>, the text of the
  dotfile \<open>.env\<close> (\<open>None\<close> when the file does not exist), whether the directory \<open>logs\<close>
  exists, and, as a history, every process that \<open>subprocess.Popen\<close> has started.
\<close>

record world =
  log_queue :: "pystr list"
  current_process :: "process option"
  environ :: "pystr \<rightharpoonup> pystr"
  dotenv_file :: "pystr option"
  logs_dir :: bool
  launched :: "process list"

text \<open>One snapshot: status, answer, log text, log file path, transcript.\<close>

record snapshot =
  status :: pystr
  answer :: pystr
  log_text :: pystr
  log_path :: pystr
  chat :: "transcript option"

text \<open>
  What the surroundings do during one pass of the polling loop is an input of the model:
  the lines that other threads (the relay thread above all) have put on the queue since
  the queue was last read, what the operating system answers to the three possible
  \<open>poll()\<close> calls of the pass (in the loop condition, under the lock after a timeout, and
  in \<open>status_message\<close> for the snapshot), and the value of \<open>time.time() - start_time\<close>
  at the timeout check. Times are real numbers.
\<close>

record tick =
  arrived :: "pystr list"
  poll_head :: "int option"
  elapsed :: real
  poll_lock :: "int option"
  poll_status :: "int option"

text \<open>
  The surroundings of one whole run: the interpreter path \<open>sys.executable\<close>, the
  formatted time stamp, whether \<open>Popen\<close> succeeds, the passes of the loop, the lines put
  on the queue between the end of the loop and the last read of the queue, and the
  answer to the \<open>poll()\<close> of the final \<open>status_message\<close>.
\<close>

record surroundings =
  executable :: pystr
  timestamp :: pystr
  spawn_ok :: bool
  ticks :: "tick list"
  late :: "pystr list"
  poll_final :: "int option"

text \<open>U+6267 U+884C U+8D85 U+65F6 U+FF0C U+5DF2 U+7EC8 U+6B62 U+8FDB U+7A0B and a newline.\<close>

definition TIMEOUT_LINE :: pystr where
  "TIMEOUT_LINE = [25191, 34892, 36229, 26102, 65292, 24050, 32456, 27490, 36827, 31243, 10]"

text \<open>U+8BF7 U+8F93 U+5165 U+95EE U+9898 U+FF01: the request to enter a question.\<close>

definition ASK_QUESTION :: pystr where
  "ASK_QUESTION = [35831, 36755, 20837, 38382, 39064, 65281]"

definition timeout :: real where
  "timeout = 1800"

text \<open>\<open>s.replace(old, new)\<close> for a non-empty \<open>old\<close>.\<close>

fun replace :: "'a list \<Rightarrow> 'a list \<Rightarrow> 'a list \<Rightarrow> 'a list" where
  "replace [] old new = []"
| "replace (c # cs) old new =
     (if startswith (c # cs) old then new @ replace (drop (length old - 1) cs) old new
      else c # replace cs old new)"

text \<open>
  The polling loop, one pass per \<open>tick\<close>:
  \<^verbatim>\<open>
  while current_process.poll() is None:
      if time.time() - start_time > timeout:
          with process_lock:
              if current_process.poll() is None:
                  current_process.terminate()
                  log_queue.put(<TIMEOUT_LINE>)
          break
      while not log_queue.empty():
          log = log_queue.get()
          logs.append(log)
      ...
      yield status_message(current_process), extract_answer(logs), "".join(logs), str(log_file), None
  \<close>
  The result is the list of snapshots yielded and how the loop ended: with an exception,
  or with the accumulated lines, the process handle and the queue. \<open>None\<close> means that the
  loop is still running when the given passes are used up. The progress callback and the
  sleep are not modelled.
\<close>

fun run_loop ::
  "pystr \<Rightarrow> tick list \<Rightarrow> pystr list \<Rightarrow> process \<Rightarrow> pystr list \<Rightarrow>
   (snapshot list \<times> (exn + pystr list \<times> process \<times> pystr list)) option" where
  "run_loop log_file [] logs p queue = None"
| "run_loop log_file (t # ts) logs p queue =
     (let queue1 = queue @ arrived t;
          p1 = poll (poll_head t) p
      in if returncode p1 \<noteq> None then Some ([], Inr (logs, p1, queue1))
         else if elapsed t > timeout then
           (let p2 = poll (poll_lock t) p1
            in if returncode p2 = None
               then Some ([], Inr (logs, terminate p2, queue1 @ [TIMEOUT_LINE]))
               else Some ([], Inr (logs, p2, queue1)))
         else
           (let logs1 = logs @ queue1;
                (st, p3) = status_message (poll_status t) p1
            in case extract_answer logs1 of
                 Inl e \<Rightarrow> Some ([], Inl e)
               | Inr ans \<Rightarrow>
                   map_option
                     (\<lambda>(snaps, r).
                        (\<lparr>status = st, answer = ans, log_text = concat logs1,
                          log_path = log_file, chat = None\<rparr> # snaps, r))
                     (run_loop log_file ts logs1 p3 [])))"

text \<open>
  \<open>run_script\<close> is a generator: its outcome is the list of the snapshots it yields, what
  it returns or raises at the end, and the state it leaves. \<open>None\<close> means that the run is
  not over when the given passes of the loop are used up.
\<close>

record outcome =
  yielded :: "snapshot list"
  returned :: "exn + snapshot"
  final_world :: world

text \<open>
  \<^verbatim>\<open>
  def run_script(script_dropdown, question, progress=gr.Progress()):
      global current_process
      script_name = SCRIPTS[script_dropdown]
      if not question.strip():
          return <ASK_QUESTION>, "", "", "", None
      while not log_queue.empty():
          log_queue.get()
      log_dir = Path("logs")
      log_dir.mkdir(exist_ok=True)
      timestamp = datetime.now().strftime("%Y%m%d_%H%M%S")
      log_file = log_dir / f"{script_name.replace('.py', '')}_{timestamp}.log"
      cmd = [sys.executable, os.path.join("owl", "script_adapter.py"), os.path.join("owl", script_name)]
      env = os.environ.copy()
      env["OWL_QUESTION"] = question
      with process_lock:
          current_process = subprocess.Popen(cmd, ..., env=env)
      threading.Thread(target=read_output, daemon=True).start()
      logs = []
      start_time = time.time()
      timeout = 1800
      <run_loop>
      while not log_queue.empty():
          logs.append(log_queue.get())
      chat_history = extract_chat_history(logs)
      return status_message(current_process), extract_answer(logs), "".join(logs), str(log_file), chat_history
  \<close>
  Paths are written with the separator \<open>/\<close>.
\<close>

definition run_script :: "pystr \<Rightarrow> pystr \<Rightarrow> surroundings \<Rightarrow> world \<Rightarrow> outcome option" where
  "run_script script_dropdown question sur w =
     (case map_of SCRIPTS script_dropdown of
        None \<Rightarrow> Some \<lparr>yielded = [], returned = Inl KeyError, final_world = w\<rparr>
      | Some script_name \<Rightarrow>
          if strip question = [] then
            Some \<lparr>yielded = [],
                  returned = Inr \<lparr>status = ASK_QUESTION, answer = [], log_text = [],
                                 log_path = [], chat = None\<rparr>,
                  final_world = w\<rparr>
          else
            (let w1 = w\<lparr>log_queue := [], logs_dir := True\<rparr>;
                 log_file = ascii ''logs/'' @ replace script_name (ascii ''.py'') []
                              @ ascii ''_'' @ timestamp sur @ ascii ''.log'';
                 cmd = [executable sur, ascii ''owl/script_adapter.py'',
                        ascii ''owl/'' @ script_name];
                 env = (environ w)(ascii ''OWL_QUESTION'' \<mapsto> question)
             in if \<not> spawn_ok sur then
                  Some \<lparr>yielded = [], returned = Inl OSError, final_world = w1\<rparr>
                else
                  (let p = \<lparr>args = cmd, penv = env, returncode = None, sigterm_sent = False\<rparr>;
                       w2 = w1\<lparr>current_process := Some p, launched := launched w1 @ [p]\<rparr>
                   in case run_loop log_file (ticks sur) [] p (log_queue w2) of
                        None \<Rightarrow> None
                      | Some (snaps, Inl e) \<Rightarrow>
                          Some \<lparr>yielded = snaps, returned = Inl e, final_world = w2\<rparr>
                      | Some (snaps, Inr (logs, p', queue)) \<Rightarrow>
                          (let logs1 = logs @ queue @ late sur;
                               w3 = w2\<lparr>log_queue := []\<rparr>
                           in case extract_chat_history logs1 of
                                Inl e \<Rightarrow>
                                  Some \<lparr>yielded = snaps, returned = Inl e,
                                        final_world = w3\<lparr>current_process := Some p'\<rparr>\<rparr>
                              | Inr chat_history \<Rightarrow>
                                  (let (st, p'') = status_message (poll_final sur) p';
                                       w4 = w3\<lparr>current_process := Some p''\<rparr>
                                   in case extract_answer logs1 of
                                        Inl e \<Rightarrow>
                                          Some \<lparr>yielded = snaps, returned = Inl e,
                                                final_world = w4\<rparr>
                                      | Inr ans \<Rightarrow>
                                          Some \<lparr>yielded = snaps,
                                                returned =
                                                  Inr \<lparr>status = st, answer = ans,
                                                       log_text = concat logs1,
                                                       log_path = log_file,
                                                       chat = chat_history\<rparr>,
                                                final_world = w4\<rparr>)))))"

section \<open>Configuration: \<open>load_env_vars\<close> and \<open>save_env_vars\<close>\<close>

text \<open>
  The table \<open>ENV_GROUPS\<close>: three groups of variables, each variable with its name, its
  label, its input type and whether it is required. The group titles and parts of the
  labels are non-ASCII text.
\<close>

record env_var =
  name :: pystr
  label :: pystr
  kind :: pystr
  required :: bool

definition ENV_GROUPS :: "(pystr \<times> env_var list) list" where
  "ENV_GROUPS =
     [([27169, 22411, 65, 80, 73],
       [\<lparr>name = ascii ''OPENAI_API_KEY'',
         label = ascii ''OpenAI API'' @ [23494, 38053],
         kind = ascii ''password'', required = True\<rparr>,
        \<lparr>name = ascii ''OPENAI_API_BASE_URL'',
         label = ascii ''OpenAI API'' @ [22522, 30784] @ ascii ''URL'',
         kind = ascii ''text'', required = False\<rparr>,
        \<lparr>name = ascii ''QWEN_API_KEY'',
         label = [38463, 37324, 20113] @ ascii ''Qwen API'' @ [23494, 38053],
         kind = ascii ''password'', required = False\<rparr>,
        \<lparr>name = ascii ''DEEPSEEK_API_KEY'',
         label = ascii ''DeepSeek API'' @ [23494, 38053],
         kind = ascii ''password'', required = False\<rparr>]),
      ([25628, 32034, 24037, 20855],
       [\<lparr>name = ascii ''GOOGLE_API_KEY'',
         label = ascii ''Google API'' @ [23494, 38053],
         kind = ascii ''password'', required = False\<rparr>,
        \<lparr>name = ascii ''SEARCH_ENGINE_ID'',
         label = [25628, 32034, 24341, 25806] @ ascii ''ID'',
         kind = ascii ''text'', required = False\<rparr>]),
      ([20854, 20182, 24037, 20855],
       [\<lparr>name = ascii ''HF_TOKEN'',
         label = ascii ''Hugging Face'' @ [20196, 29260],
         kind = ascii ''password'', required = False\<rparr>,
        \<lparr>name = ascii ''CHUNKR_API_KEY'',
         label = ascii ''Chunkr API'' @ [23494, 38053],
         kind = ascii ''password'', required = False\<rparr>,
        \<lparr>name = ascii ''FIRECRAWL_API_KEY'',
         label = ascii ''Firecrawl API'' @ [23494, 38053],
         kind = ascii ''password'', required = False\<rparr>])]"

text \<open>
  A Python \<open>dict\<close> with string keys whose order matters is a list of pairs with distinct
  keys, in insertion order. \<open>d[key] = value\<close> replaces the value of a key that is present,
  in place, and appends a key that is new.
\<close>

fun dict_set :: "'k \<Rightarrow> 'v \<Rightarrow> ('k \<times> 'v) list \<Rightarrow> ('k \<times> 'v) list" where
  "dict_set key v [] = [(key, v)]"
| "dict_set key v ((k, x) # d) = (if k = key then (key, v) # d else (k, x) # dict_set key v d)"

text \<open>
  \<open>os.environ[key] = value\<close>. It raises \<open>ValueError\<close> for an empty name, a name that
  contains \<open>=\<close>, a null character in the name or the value, or a surrogate code point
  that the file system encoding cannot write (every surrogate outside U+DC80..U+DCFF;
  Python's \<open>UnicodeEncodeError\<close> is a \<open>ValueError\<close>).
\<close>

definition env_encodable :: "pystr \<Rightarrow> bool" where
  "env_encodable s \<longleftrightarrow>
     (\<forall>c \<in> set s. c \<noteq> 0 \<and> \<not> (55296 \<le> c \<and> c \<le> 57343 \<and> \<not> (56448 \<le> c \<and> c \<le> 56575)))"

definition environ_set ::
  "pystr \<Rightarrow> pystr \<Rightarrow> (pystr \<rightharpoonup> pystr) \<Rightarrow> exn + (pystr \<rightharpoonup> pystr)" where
  "environ_set key v env =
     (if key \<noteq> [] \<and> 61 \<notin> set key \<and> env_encodable key \<and> env_encodable v
      then Inr (env(key \<mapsto> v))
      else Inl ValueError)"

text \<open>
  The lines that iterating over a file opened in text mode yields: the text is cut after
  every line break, where \<open>\n\<close>, \<open>\r\n\<close> and \<open>\r\<close> all count as one line break and are
  read as \<open>\n\<close>. \<open>cur\<close> is the line read so far, and \<open>after_cr\<close> says that the code
  point before was \<open>\r\<close>.
\<close>

fun file_lines :: "pystr \<Rightarrow> bool \<Rightarrow> pystr \<Rightarrow> pystr list" where
  "file_lines cur after_cr [] = (if cur = [] then [] else [cur])"
| "file_lines cur after_cr (c # cs) =
     (if c = 10 then
        (if after_cr then file_lines cur False cs
         else (cur @ [10]) # file_lines [] False cs)
      else if c = 13 then (cur @ [10]) # file_lines [] True cs
      else file_lines (cur @ [c]) False cs)"

text \<open>
  \<^verbatim>\<open>
  for line in f:
      line = line.strip()
      if line and not line.startswith("#") and "=" in line:
          key, value = line.split("=", 1)
          existing_content[key.strip()] = value.strip()
  \<close>
  Unpacking a list that does not have two elements raises \<open>ValueError\<close>.
\<close>

definition read_line :: "pystr \<Rightarrow> (pystr \<times> pystr) list \<Rightarrow> exn + (pystr \<times> pystr) list" where
  "read_line raw existing_content =
     (let line = strip raw in
      if line \<noteq> [] \<and> \<not> startswith line [35] \<and> contains line [61] then
        (case split1 line [61] of
           [key, v] \<Rightarrow> Inr (dict_set (strip key) (strip v) existing_content)
         | _ \<Rightarrow> Inl ValueError)
      else Inr existing_content)"

fun read_lines :: "pystr list \<Rightarrow> (pystr \<times> pystr) list \<Rightarrow> exn + (pystr \<times> pystr) list" where
  "read_lines [] existing_content = Inr existing_content"
| "read_lines (raw # raws) existing_content =
     (case read_line raw existing_content of
        Inl e \<Rightarrow> Inl e
      | Inr d \<Rightarrow> read_lines raws d)"

text \<open>The entries that \<open>save_env_vars\<close> reads from the dotfile, if it exists.\<close>

definition read_env :: "pystr option \<Rightarrow> exn + (pystr \<times> pystr) list" where
  "read_env file =
     (case file of
        None \<Rightarrow> Inr []
      | Some text \<Rightarrow> read_lines (file_lines [] False text) [])"

text \<open>
  \<^verbatim>\<open>
  for key, value in env_vars.items():
      if value:
          existing_content[key] = value
          os.environ[key] = value
  \<close>
  An exception leaves the environment as the assignments before it have made it.
\<close>

fun update_vars ::
  "(pystr \<times> pystr) list \<Rightarrow> (pystr \<times> pystr) list \<Rightarrow> (pystr \<rightharpoonup> pystr) \<Rightarrow>
   (exn + (pystr \<times> pystr) list) \<times> (pystr \<rightharpoonup> pystr)" where
  "update_vars [] existing_content env = (Inr existing_content, env)"
| "update_vars ((key, v) # env_vars) existing_content env =
     (if v \<noteq> [] then
        (case environ_set key v env of
           Inl e \<Rightarrow> (Inl e, env)
         | Inr env' \<Rightarrow> update_vars env_vars (dict_set key v existing_content) env')
      else update_vars env_vars existing_content env)"

text \<open>
  \<^verbatim>\<open>
  with open(env_path, "w", encoding="utf-8") as f:
      for key, value in existing_content.items():
          f.write(f"{key}={value}\n")
  \<close>
  Opening the file empties it. A line with a surrogate code point cannot be encoded: the
  write raises, and the file keeps the lines written before it.
\<close>

definition env_line :: "pystr \<times> pystr \<Rightarrow> pystr" where
  "env_line entry = fst entry @ [61] @ snd entry @ [10]"

definition utf8_encodable :: "pystr \<Rightarrow> bool" where
  "utf8_encodable s \<longleftrightarrow> (\<forall>c \<in> set s. \<not> (55296 \<le> c \<and> c \<le> 57343))"

fun write_entries :: "(pystr \<times> pystr) list \<Rightarrow> pystr \<Rightarrow> exn option \<times> pystr" where
  "write_entries [] written = (None, written)"
| "write_entries (entry # entries) written =
     (if utf8_encodable (env_line entry)
      then write_entries entries (written @ env_line entry)
      else (Some ValueError, written))"

text \<open>U+73AF U+5883 U+53D8 U+91CF U+5DF2 U+4FDD U+5B58: the message after saving.\<close>

definition SAVED :: pystr where
  "SAVED = [29615, 22659, 21464, 37327, 24050, 20445, 23384]"

text \<open>
  \<open>save_env_vars(env_vars)\<close>: what it returns or raises, and the state after it.
\<close>

definition save_env_vars :: "(pystr \<times> pystr) list \<Rightarrow> world \<Rightarrow> (exn + pystr) \<times> world" where
  "save_env_vars env_vars w =
     (case read_env (dotenv_file w) of
        Inl e \<Rightarrow> (Inl e, w)
      | Inr existing_content \<Rightarrow>
          (case update_vars env_vars existing_content (environ w) of
             (Inl e, env) \<Rightarrow> (Inl e, w\<lparr>environ := env\<rparr>)
           | (Inr merged, env) \<Rightarrow>
               (case write_entries merged [] of
                  (Some e, written) \<Rightarrow>
                    (Inl e, w\<lparr>environ := env, dotenv_file := Some written\<rparr>)
                | (None, written) \<Rightarrow>
                    (Inr SAVED, w\<lparr>environ := env, dotenv_file := Some written\<rparr>))))"

text \<open>
  \<open>dotenv.load_dotenv()\<close> belongs to the library python-dotenv. What it reads from the
  dotfile it finds is a parameter (\<open>bindings\<close>: the names and values, in the order of the
  file); what it does with them is modelled: called without arguments it does not
  override, so a name that is already in the environment keeps its value, and every other
  name is set.
\<close>

fun load_dotenv ::
  "(pystr \<times> pystr) list \<Rightarrow> (pystr \<rightharpoonup> pystr) \<Rightarrow> exn option \<times> (pystr \<rightharpoonup> pystr)" where
  "load_dotenv [] env = (None, env)"
| "load_dotenv ((key, v) # bindings) env =
     (if env key \<noteq> None then load_dotenv bindings env
      else
        (case environ_set key v env of
           Inl e \<Rightarrow> (Some e, env)
         | Inr env' \<Rightarrow> load_dotenv bindings env'))"

text \<open>
  \<^verbatim>\<open>
  def load_env_vars():
      env_vars = {}
      dotenv.load_dotenv()
      for group in ENV_GROUPS.values():
          for var in group:
              env_vars[var["name"]] = os.environ.get(var["name"], "")
      return env_vars
  \<close>
\<close>

definition load_env_vars ::
  "(pystr \<times> pystr) list \<Rightarrow> world \<Rightarrow> (exn + (pystr \<times> pystr) list) \<times> world" where
  "load_env_vars bindings w =
     (case load_dotenv bindings (environ w) of
        (Some e, env) \<Rightarrow> (Inl e, w\<lparr>environ := env\<rparr>)
      | (None, env) \<Rightarrow>
          (Inr (fold (\<lambda>var env_vars.
                        dict_set (name var) (case env (name var) of None \<Rightarrow> [] | Some v \<Rightarrow> v)
                          env_vars)
                  (concat (map snd ENV_GROUPS)) []),
           w\<lparr>environ := env\<rparr>))"

text \<open>
  The entries that the reader of \<open>save_env_vars\<close> produces have this shape: no \<open>=\<close> in
  the key, no whitespace around the key or the value, and no \<open>#\<close> at the start of the
  key.
\<close>

definition proper_entry :: "pystr \<times> pystr \<Rightarrow> bool" where
  "proper_entry e \<longleftrightarrow>
     61 \<notin> set (fst e) \<and> strip (fst e) = fst e \<and> strip (snd e) = snd e \<and>
     (fst e \<noteq> [] \<longrightarrow> hd (fst e) \<noteq> 35)"

text \<open>Text without a line break.\<close>

definition no_breaks :: "pystr \<Rightarrow> bool" where
  "no_breaks s \<longleftrightarrow> 10 \<notin> set s \<and> 13 \<notin> set s"

text \<open>The state in which the application starts: nothing queued, nothing running.\<close>

definition initial_world :: world where
  "initial_world =
     \<lparr>log_queue = [], current_process = None, environ = Map.empty, dotenv_file = None,
      logs_dir = False, launched = []\<rparr>"

section \<open>Facts about searching in text\<close>

lemma startswith_append: "startswith (p @ s) p"
  by (simp add: startswith_def)

lemma startswith_iff: "startswith s p \<longleftrightarrow> (\<exists>v. s = p @ v)"
proof
  assume "startswith s p"
  then have "s = p @ drop (length p) s"
    by (metis append_take_drop_id startswith_def)
  then show "\<exists>v. s = p @ v" ..
next
  assume "\<exists>v. s = p @ v"
  then show "startswith s p" by (auto simp: startswith_def)
qed

lemma find_Some_decomp:
  "str_find s sub = Some i \<Longrightarrow> \<exists>v. s = take i s @ sub @ v \<and> i \<le> length s"
proof (induction s arbitrary: i)
  case Nil
  then show ?case by (auto split: if_splits)
next
  case (Cons c cs)
  show ?case
  proof (cases "startswith (c # cs) sub")
    case True
    with Cons.prems have "i = 0" by simp
    with True show ?thesis by (auto simp: startswith_iff)
  next
    case False
    with Cons.prems obtain j where j: "str_find cs sub = Some j" "i = Suc j" by auto
    from Cons.IH [OF j(1)] obtain v where "cs = take j cs @ sub @ v" "j \<le> length cs" by blast
    with j(2) show ?thesis by auto
  qed
qed

lemma find_None_iff: "str_find s sub = None \<longleftrightarrow> (\<nexists>u v. s = u @ sub @ v)"
proof (induction s)
  case Nil
  then show ?case by auto
next
  case (Cons c cs)
  show ?case
  proof (cases "startswith (c # cs) sub")
    case True
    then obtain v where "c # cs = [] @ sub @ v" by (auto simp: startswith_iff)
    with True show ?thesis by (metis str_find.simps(2) option.distinct(1))
  next
    case False
    have "(\<exists>u v. c # cs = u @ sub @ v) \<longleftrightarrow> (\<exists>u v. cs = u @ sub @ v)"
    proof
      assume "\<exists>u v. c # cs = u @ sub @ v"
      then obtain u v where uv: "c # cs = u @ sub @ v" by blast
      show "\<exists>u v. cs = u @ sub @ v"
      proof (cases u)
        case Nil
        with uv False show ?thesis by (simp add: startswith_iff)
      next
        case (Cons a u')
        with uv have "cs = u' @ sub @ v" by simp
        then show ?thesis by blast
      qed
    next
      assume "\<exists>u v. cs = u @ sub @ v"
      then obtain u v where "cs = u @ sub @ v" by blast
      then have "c # cs = (c # u) @ sub @ v" by simp
      then show "\<exists>u v. c # cs = u @ sub @ v" by blast
    qed
    with False Cons.IH show ?thesis by simp
  qed
qed

lemma contains_iff: "contains s sub \<longleftrightarrow> (\<exists>u v. s = u @ sub @ v)"
  using find_None_iff [of s sub] by (auto simp: contains_def)

text \<open>\<open>str_find\<close> returns the position of the leftmost occurrence.\<close>

lemma find_leftmost:
  "(\<And>u v. pre @ sub @ post = u @ sub @ v \<Longrightarrow> length pre \<le> length u) \<Longrightarrow>
   str_find (pre @ sub @ post) sub = Some (length pre)"
proof (induction pre)
  case Nil
  show ?case
  proof (cases "sub @ post")
    case Nil
    then show ?thesis by simp
  next
    case (Cons a list)
    have "startswith (sub @ post) sub" by (rule startswith_append)
    with Cons show ?thesis by simp
  qed
next
  case (Cons c pre)
  have not_start: "\<not> startswith (c # pre @ sub @ post) sub"
  proof
    assume "startswith (c # pre @ sub @ post) sub"
    then obtain v where "(c # pre) @ sub @ post = [] @ sub @ v"
      by (auto simp: startswith_iff)
    from Cons.prems [OF this] show False by simp
  qed
  have "str_find (pre @ sub @ post) sub = Some (length pre)"
  proof (rule Cons.IH)
    fix u v
    assume "pre @ sub @ post = u @ sub @ v"
    then have "(c # pre) @ sub @ post = (c # u) @ sub @ v" by simp
    from Cons.prems [OF this] show "length pre \<le> length u" by simp
  qed
  with not_start show ?case by simp
qed

text \<open>The first occurrence of a character that the text before it does not contain.\<close>

lemma find_first_char:
  assumes "c \<notin> set pre"
  shows "str_find (pre @ c # post) [c] = Some (length pre)"
proof -
  have "str_find (pre @ [c] @ post) [c] = Some (length pre)"
  proof (rule find_leftmost)
    fix u v
    assume eq: "pre @ [c] @ post = u @ [c] @ v"
    show "length pre \<le> length u"
    proof (rule ccontr)
      assume "\<not> length pre \<le> length u"
      then have less: "length u < length pre" by simp
      then have "(pre @ [c] @ post) ! length u = pre ! length u"
        by (simp add: nth_append)
      moreover have "(u @ [c] @ v) ! length u = c" by simp
      ultimately have "pre ! length u = c" using eq by simp
      with less have "c \<in> set pre" by (metis nth_mem)
      with assms show False by simp
    qed
  qed
  then show ?thesis by simp
qed

text \<open>\<open>strip\<close> leaves nothing exactly when every code point is whitespace.\<close>

lemma strip_empty_iff: "strip s = [] \<longleftrightarrow> (\<forall>c \<in> set s. is_space c)"
proof
  assume "strip s = []"
  then have all: "\<forall>c \<in> set (dropWhile is_space s). is_space c"
    by (simp add: strip_def dropWhile_eq_Nil_conv)
  have "dropWhile is_space s = []"
  proof (rule ccontr)
    assume ne: "dropWhile is_space s \<noteq> []"
    then have "\<not> is_space (hd (dropWhile is_space s))" by (rule hd_dropWhile)
    with all ne show False by simp
  qed
  then show "\<forall>c \<in> set s. is_space c" by (simp add: dropWhile_eq_Nil_conv)
next
  assume "\<forall>c \<in> set s. is_space c"
  then have "dropWhile is_space s = []" by (simp add: dropWhile_eq_Nil_conv)
  then have "strip s = rev (dropWhile is_space (rev []))" by (simp only: strip_def)
  then show "strip s = []" by simp
qed

text \<open>What \<open>strip\<close> leaves has no whitespace at either end, and text without whitespace
  at its ends is left as it is.\<close>

lemma last_dropWhile: "dropWhile P xs \<noteq> [] \<Longrightarrow> last (dropWhile P xs) = last xs"
  by (induction xs) (auto split: if_splits)

lemma strip_ends:
  assumes "strip s \<noteq> []"
  shows "\<not> is_space (hd (strip s))" and "\<not> is_space (last (strip s))"
proof -
  let ?t = "dropWhile is_space s"
  let ?u = "dropWhile is_space (rev ?t)"
  from assms have u: "?u \<noteq> []" by (simp add: strip_def)
  have t: "?t \<noteq> []"
  proof
    assume "?t = []"
    then have "?u = []" by (simp only: rev.simps dropWhile.simps)
    with u show False ..
  qed
  have "hd (strip s) = last ?u" by (simp only: strip_def hd_rev)
  also have "\<dots> = last (rev ?t)" using u by (rule last_dropWhile)
  also have "\<dots> = hd ?t" by (simp only: last_rev)
  finally have "hd (strip s) = hd ?t" .
  with hd_dropWhile [OF t] show "\<not> is_space (hd (strip s))" by simp
  have "last (strip s) = hd ?u" by (simp only: strip_def last_rev)
  with hd_dropWhile [OF u] show "\<not> is_space (last (strip s))" by simp
qed

lemma strip_trimmed:
  assumes "s \<noteq> []" and "\<not> is_space (hd s)" and "\<not> is_space (last s)"
    and "\<forall>c \<in> set w. is_space c"
  shows "strip (s @ w) = s"
proof -
  from assms(1,2) have "dropWhile is_space (s @ w) = s @ w"
    by (simp add: dropWhile_eq_self_iff)
  moreover have "dropWhile is_space (rev (s @ w)) = rev s"
  proof -
    have "dropWhile is_space (rev w @ rev s) = dropWhile is_space (rev s)"
      using assms(4) by (simp add: dropWhile_append)
    also have "\<dots> = rev s"
      using assms(1,3) by (simp add: dropWhile_eq_self_iff hd_rev)
    finally show ?thesis by simp
  qed
  ultimately show ?thesis by (simp only: strip_def rev_rev_ident)
qed

lemma strip_idem: "strip (strip s) = strip s"
proof (cases "strip s = []")
  case True
  have "strip [] = []" by (simp add: strip_def)
  with True show ?thesis by simp
next
  case False
  from strip_trimmed [OF False strip_ends [OF False], of "[]"] show ?thesis by simp
qed

lemma set_strip: "set (strip s) \<subseteq> set s"
proof -
  have "set (strip s) = set (dropWhile is_space (rev (dropWhile is_space s)))"
    by (simp only: strip_def set_rev)
  also have "\<dots> \<subseteq> set (rev (dropWhile is_space s))" by (auto dest: set_dropWhileD)
  also have "\<dots> \<subseteq> set s" by (auto dest: set_dropWhileD)
  finally show ?thesis .
qed

lemma strip_keeps_hd:
  assumes "s \<noteq> []" and "\<not> is_space (hd s)"
  shows "strip s \<noteq> []" and "hd (strip s) = hd s"
proof -
  from assms have "\<not> (\<forall>c \<in> set s. is_space c)" by (cases s) auto
  then show ne: "strip s \<noteq> []" by (simp add: strip_empty_iff)
  let ?t = "dropWhile is_space s"
  let ?u = "dropWhile is_space (rev ?t)"
  from assms have t: "?t = s" by (simp add: dropWhile_eq_self_iff)
  from ne have u: "?u \<noteq> []" by (simp add: strip_def)
  have "hd (strip s) = last ?u" by (simp only: strip_def hd_rev)
  also have "\<dots> = last (rev ?t)" using u by (rule last_dropWhile)
  also have "\<dots> = hd s" by (simp only: last_rev t)
  finally show "hd (strip s) = hd s" .
qed

text \<open>Lines without the token are passed over.\<close>

lemma extract_answer_skip:
  "\<forall>l \<in> set before. \<not> contains l ANSWER \<Longrightarrow>
   extract_answer (before @ rest) = extract_answer rest"
  by (induction before) simp_all

lemma extract_answer_at_first:
  assumes "\<forall>l \<in> set before. \<not> contains l ANSWER"
    and "\<And>u v. pre @ ANSWER @ post = u @ ANSWER @ v \<Longrightarrow> length pre \<le> length u"
  shows "extract_answer (before @ (pre @ ANSWER @ post) # later) = Inr (strip post)"
proof -
  have f: "str_find (pre @ ANSWER @ post) ANSWER = Some (length pre)"
    using assms(2) by (rule find_leftmost)
  then have "contains (pre @ ANSWER @ post) ANSWER"
    by (simp add: contains_def)
  with f have "extract_answer ((pre @ ANSWER @ post) # later) = Inr (strip post)"
    by (simp add: split1_def index_def)
  with assms(1) show ?thesis by (simp add: extract_answer_skip)
qed

lemma leftmost_occurrence:
  assumes "\<exists>u v. s = u @ sub @ v"
  shows "\<exists>pre post. s = pre @ sub @ post \<and>
           (\<forall>u v. s = u @ sub @ v \<longrightarrow> length pre \<le> length u)"
proof -
  define P where "P n \<longleftrightarrow> (\<exists>u v. s = u @ sub @ v \<and> length u = n)" for n
  from assms have "\<exists>n. P n" by (auto simp: P_def)
  then have "P (LEAST n. P n)" and least: "\<And>m. P m \<Longrightarrow> (LEAST n. P n) \<le> m"
    by (auto intro: LeastI_ex Least_le)
  then obtain pre post where pp: "s = pre @ sub @ post" "length pre = (LEAST n. P n)"
    by (auto simp: P_def)
  have "\<forall>u v. s = u @ sub @ v \<longrightarrow> length pre \<le> length u"
    using least pp(2) by (auto simp: P_def)
  with pp(1) show ?thesis by blast
qed

section \<open>Claims about \<open>extract_answer\<close>\<close>

text \<open>
  Claim C3. Whenever some line of the log contains the token \<open>Answer:\<close>, the log splits
  into the lines before the first such line (none of which contains the token), that line,
  and the lines after it; the line splits at the leftmost occurrence of the token; and
  \<open>extract_answer\<close> returns what follows that occurrence, stripped of surrounding
  whitespace. The lines after the first match play no role.
\<close>

theorem extract_answer_first_match:
  assumes "\<exists>l \<in> set logs. \<exists>u v. l = u @ ANSWER @ v"
  shows "\<exists>before pre post later.
           logs = before @ (pre @ ANSWER @ post) # later \<and>
           (\<forall>l \<in> set before. \<nexists>u v. l = u @ ANSWER @ v) \<and>
           (\<forall>u v. pre @ ANSWER @ post = u @ ANSWER @ v \<longrightarrow> length pre \<le> length u) \<and>
           (\<forall>later'. extract_answer (before @ (pre @ ANSWER @ post) # later')
                       = Inr (strip post))"
proof -
  from assms have "\<exists>l \<in> set logs. contains l ANSWER"
    by (simp add: contains_iff)
  from split_list_first_prop [OF this]
  obtain before line later where dec: "logs = before @ line # later"
    and line: "contains line ANSWER" and bef: "\<forall>l \<in> set before. \<not> contains l ANSWER"
    by blast
  from line obtain pre post where pp: "line = pre @ ANSWER @ post"
    and left: "\<forall>u v. line = u @ ANSWER @ v \<longrightarrow> length pre \<le> length u"
    using leftmost_occurrence [of line ANSWER] by (auto simp: contains_iff)
  have "extract_answer (before @ (pre @ ANSWER @ post) # later') = Inr (strip post)"
    for later'
    using bef left unfolding pp by (intro extract_answer_at_first) auto
  with dec bef pp left show ?thesis
    by (auto simp: contains_iff)
qed

theorem extract_answer_first_match_witness:
  "(\<exists>l \<in> set [ascii ''step 1'', ascii ''The Answer: 42 '', ascii ''Answer: 7''].
      \<exists>u v. l = u @ ANSWER @ v) \<and>
   (\<exists>before pre post later.
      [ascii ''step 1'', ascii ''The Answer: 42 '', ascii ''Answer: 7'']
        = before @ (pre @ ANSWER @ post) # later \<and>
      (\<forall>l \<in> set before. \<nexists>u v. l = u @ ANSWER @ v) \<and>
      (\<forall>u v. pre @ ANSWER @ post = u @ ANSWER @ v \<longrightarrow> length pre \<le> length u) \<and>
      (\<forall>later'. extract_answer (before @ (pre @ ANSWER @ post) # later')
                  = Inr (strip post)))"
proof -
  have "ascii ''Answer: 7'' = [] @ ANSWER @ ascii '' 7''"
    by (simp add: ascii_def ANSWER_def)
  then have h: "\<exists>l \<in> set [ascii ''step 1'', ascii ''The Answer: 42 '', ascii ''Answer: 7''].
      \<exists>u v. l = u @ ANSWER @ v"
    by (metis list.set_intros(1,2))
  from h extract_answer_first_match [OF h] show ?thesis by (rule conjI)
qed

text \<open>
  Claim C9. When no line of the log contains the token \<open>Answer:\<close>, \<open>extract_answer\<close>
  returns the empty string, which is how the function reports that there is no answer.
\<close>

theorem extract_answer_no_token:
  assumes "\<forall>l \<in> set logs. \<nexists>u v. l = u @ ANSWER @ v"
  shows "extract_answer logs = Inr []"
proof -
  from assms have "\<forall>l \<in> set logs. \<not> contains l ANSWER"
    by (simp add: contains_iff)
  then have "extract_answer (logs @ []) = extract_answer []"
    by (rule extract_answer_skip)
  then show ?thesis by simp
qed

theorem extract_answer_no_token_witness:
  "extract_answer [ascii ''step 1'', ascii ''answer 42''] = Inr []"
proof -
  have "\<not> contains (ascii ''step 1'') ANSWER" "\<not> contains (ascii ''answer 42'') ANSWER"
    by (simp_all add: contains_def startswith_def ascii_def ANSWER_def)
  then have h: "\<forall>l \<in> set [ascii ''step 1'', ascii ''answer 42''].
      \<nexists>u v. l = u @ ANSWER @ v"
    by (simp add: contains_iff)
  from extract_answer_no_token [OF h] show ?thesis .
qed

section \<open>Claims about \<open>status_message\<close>\<close>

text \<open>\<open>str_int\<close> writes the decimal numeral of its argument.\<close>

lemma decimal_value_snoc: "decimal_value (ds @ [d]) = 10 * decimal_value ds + (d - 48)"
  by (simp add: decimal_value_def)

lemma decimal_value_str_nat: "decimal_value (str_nat n) = n"
proof (induction n rule: str_nat.induct)
  case (1 n)
  show ?case
  proof (cases "n < 10")
    case True
    then show ?thesis by (simp add: str_nat.simps [of n] decimal_value_def)
  next
    case False
    with "1.IH" have "decimal_value (str_nat (n div 10)) = n div 10" by simp
    with False show ?thesis
      by (simp add: str_nat.simps [of n] decimal_value_snoc)
  qed
qed

lemma str_nat_digits: "str_nat n \<noteq> [] \<and> 48 \<le> hd (str_nat n)"
proof (induction n rule: str_nat.induct)
  case (1 n)
  show ?case
  proof (cases "n < 10")
    case True
    then show ?thesis by (simp add: str_nat.simps [of n])
  next
    case False
    with "1.IH" have "str_nat (n div 10) \<noteq> [] \<and> 48 \<le> hd (str_nat (n div 10))" by simp
    with False show ?thesis by (simp add: str_nat.simps [of n])
  qed
qed

lemma int_value_str_int: "int_value (str_int i) = i"
proof (cases "i < 0")
  case True
  then show ?thesis
    by (simp add: int_value_def str_int_def decimal_value_str_nat)
next
  case False
  obtain c cs where cs: "str_nat (nat i) = c # cs"
    using str_nat_digits [of "nat i"] by (cases "str_nat (nat i)") auto
  with str_nat_digits [of "nat i"] have "c \<noteq> 45" by auto
  moreover have "decimal_value (c # cs) = nat i"
    using decimal_value_str_nat [of "nat i"] cs by simp
  ultimately show ?thesis using False cs
    by (simp add: int_value_def str_int_def)
qed

text \<open>
  Claim C8. When the process has exited, that is, when the \<open>poll()\<close> inside
  \<open>status_message\<close> gives a return code, the status is the success text exactly when
  the code is 0; for a code other than 0 it is the failure text, which contains the
  decimal numeral of the code.
\<close>

theorem status_message_exit_code:
  assumes "returncode (poll obs p) = Some code"
  shows "(fst (status_message obs p) = STATUS_OK \<longleftrightarrow> code = 0) \<and>
         (code \<noteq> 0 \<longrightarrow>
            fst (status_message obs p) = STATUS_FAILED code \<and>
            (\<exists>u v. STATUS_FAILED code = u @ str_int code @ v) \<and>
            int_value (str_int code) = code)"
proof -
  have differ: "STATUS_FAILED code \<noteq> STATUS_OK"
    by (simp add: STATUS_FAILED_def STATUS_OK_def)
  have inside: "\<exists>u v. STATUS_FAILED code = u @ str_int code @ v"
    unfolding STATUS_FAILED_def by blast
  from assms differ inside show ?thesis
    by (simp add: status_message_def Let_def int_value_str_int)
qed

theorem status_message_exit_code_witness:
  "returncode (poll (Some 2) \<lparr>args = [], penv = Map.empty, returncode = None,
                              sigterm_sent = False\<rparr>) = Some 2 \<and>
   fst (status_message (Some 2) \<lparr>args = [], penv = Map.empty, returncode = None,
                                 sigterm_sent = False\<rparr>)
     = [10060, 32, 25191, 34892, 22833, 36133, 32, 40, 36820, 22238, 30721, 58, 32, 50, 41]"
proof -
  let ?p = "\<lparr>args = [], penv = Map.empty, returncode = None, sigterm_sent = False\<rparr>"
  have h: "returncode (poll (Some 2) ?p) = Some 2"
    by (simp add: poll_def)
  have "str_int 2 = [50]"
    by (simp add: str_int_def str_nat.simps [of 2])
  with h status_message_exit_code [OF h] show ?thesis
    by (simp add: STATUS_FAILED_def)
qed

section \<open>Claims about \<open>run_script\<close>\<close>

text \<open>
  Claim C6. A run request names one of the configured scripts (a label of \<open>SCRIPTS\<close>,
  which is what the drop-down offers). When its question is empty or consists of
  whitespace only, \<open>run_script\<close> yields no snapshot and returns at once the tuple whose
  status is the request to enter a question; the state is left as it was, so no process
  has been started, the process slot and the queue are untouched, whatever the
  surroundings would have done.
\<close>

theorem run_script_empty_question:
  assumes "script_dropdown \<in> fst ` set SCRIPTS"
    and "\<forall>c \<in> set question. is_space c"
  shows "run_script script_dropdown question sur w =
           Some \<lparr>yielded = [],
                 returned = Inr \<lparr>status = ASK_QUESTION, answer = [], log_text = [],
                                log_path = [], chat = None\<rparr>,
                 final_world = w\<rparr>"
proof -
  from assms(1) obtain script_name where "map_of SCRIPTS script_dropdown = Some script_name"
    by (cases "map_of SCRIPTS script_dropdown") (auto simp: map_of_eq_None_iff)
  moreover from assms(2) have "strip question = []"
    by (simp add: strip_empty_iff)
  ultimately show ?thesis by (simp add: run_script_def)
qed



theorem run_script_empty_question_witness:
  "ascii ''Mini'' \<in> fst ` set SCRIPTS \<and>
   run_script (ascii ''Mini'') (ascii ''  '' @ [10])
     \<lparr>executable = ascii ''python'', timestamp = ascii ''20250101_120000'', spawn_ok = True,
      ticks = [], late = [], poll_final = None\<rparr>
     initial_world =
     Some \<lparr>yielded = [],
           returned = Inr \<lparr>status = ASK_QUESTION, answer = [], log_text = [],
                          log_path = [], chat = None\<rparr>,
           final_world = initial_world\<rparr>"
proof -
  have h1: "ascii ''Mini'' \<in> fst ` set SCRIPTS"
    by (simp add: SCRIPTS_def ascii_def)
  have h2: "\<forall>c \<in> set (ascii ''  '' @ [10]). is_space c"
    by (simp add: is_space_def ascii_def)
  from h1 run_script_empty_question [OF h1 h2] show ?thesis by simp
qed

text \<open>Neither scan of the log raises.\<close>

lemma extract_answer_total: "\<exists>a. extract_answer logs = Inr a"
proof (induction logs)
  case Nil
  then show ?case by simp
next
  case (Cons line logs)
  show ?case
  proof (cases "contains line ANSWER")
    case True
    then obtain i where "str_find line ANSWER = Some i"
      by (auto simp: contains_def)
    with True show ?thesis by (simp add: split1_def index_def)
  next
    case False
    with Cons.IH show ?thesis by simp
  qed
qed

lemma extract_chat_history_total: "\<exists>r. extract_chat_history logs = Inr r"
  by (simp add: extract_chat_history_def split: sum.splits)

text \<open>
  The polling loop when the process stays alive and the budget is exceeded at pass \<open>t\<close>:
  the loop ends there, \<open>terminate()\<close> has been called, and the lines read so far together
  with the queue are all the lines that arrived, followed by the timeout line.
\<close>

lemma poll_alive: "returncode p = None \<Longrightarrow> poll None p = p"
  by (simp add: poll_def)

lemma status_message_alive:
  "returncode p = None \<Longrightarrow> status_message None p = (STATUS_RUNNING, p)"
  by (simp add: status_message_def poll_alive)

lemma status_message_status:
  "returncode p = None \<Longrightarrow>
   fst (status_message obs p) =
     (case obs of None \<Rightarrow> STATUS_RUNNING
      | Some code \<Rightarrow> if code = 0 then STATUS_OK else STATUS_FAILED code)"
  by (simp add: status_message_def poll_def split: option.splits)

lemma status_message_handle:
  "snd (status_message obs p) = poll obs p"
  by (simp add: status_message_def Let_def split: option.splits)

lemma run_loop_timeout:
  assumes "returncode p = None"
    and "\<forall>u \<in> set before. poll_head u = None \<and> elapsed u \<le> timeout \<and> poll_status u = None"
    and "poll_head t = None" and "elapsed t > timeout" and "poll_lock t = None"
  shows "\<exists>snaps lg qf.
           run_loop log_file (before @ t # after) logs p queue
             = Some (snaps, Inr (lg, terminate p, qf)) \<and>
           lg @ qf = logs @ queue @ concat (map arrived before) @ arrived t @ [TIMEOUT_LINE] \<and>
           length snaps = length before"
  using assms(2)
proof (induction before arbitrary: logs queue)
  case Nil
  from assms(1,3,4,5) show ?case
    by (simp add: poll_alive Let_def)
next
  case (Cons u before)
  from Cons.prems have u: "poll_head u = None" "elapsed u \<le> timeout" "poll_status u = None"
    and rest: "\<forall>u \<in> set before. poll_head u = None \<and> elapsed u \<le> timeout \<and> poll_status u = None"
    by simp_all
  from Cons.IH [OF rest, of "logs @ queue @ arrived u" "[]"]
  obtain snaps lg qf where
    run: "run_loop log_file (before @ t # after) (logs @ queue @ arrived u) p []
            = Some (snaps, Inr (lg, terminate p, qf))"
    and lines: "lg @ qf = (logs @ queue @ arrived u) @ [] @ concat (map arrived before)
                  @ arrived t @ [TIMEOUT_LINE]"
    and len: "length snaps = length before"
    by blast
  obtain ans where ans: "extract_answer (logs @ queue @ arrived u) = Inr ans"
    using extract_answer_total by blast
  from u assms(1) run ans have
    "run_loop log_file ((u # before) @ t # after) logs p queue
       = Some (\<lparr>status = STATUS_RUNNING, answer = ans,
                log_text = concat (logs @ queue @ arrived u),
                log_path = log_file, chat = None\<rparr> # snaps,
               Inr (lg, terminate p, qf))"
    by (simp add: poll_alive status_message_alive Let_def)
  with lines len show ?case by simp
qed

text \<open>
  Claim C2, as the code has it. Take a run that is started (a configured script, a
  question that is not blank, a successful \<open>Popen\<close>) and whose process is alive at every
  \<open>poll()\<close> up to a pass \<open>t\<close> of the loop at which more than 1800 time units have
  elapsed, the budget not being exceeded at the passes before. Then the run ends at that
  pass: \<open>terminate()\<close> has been called on the process, one snapshot was yielded per
  earlier pass, and the log text of the final snapshot consists of every line that arrived
  up to that pass, in order, then the line that records the timeout, then the lines that
  arrived afterwards. The status of the final snapshot is what \<open>status_message\<close> gives
  for the last \<open>poll()\<close>: the running text while the process has not yet exited, and
  otherwise the success or failure text of its return code. There is no status text of
  its own for a timeout; the timeout is recorded in the log line only.
\<close>

theorem run_script_timeout:
  assumes "script_dropdown \<in> fst ` set SCRIPTS"
    and "\<exists>c \<in> set question. \<not> is_space c"
    and "spawn_ok sur"
    and "ticks sur = before @ t # after"
    and "\<forall>u \<in> set before. poll_head u = None \<and> elapsed u \<le> timeout \<and> poll_status u = None"
    and "poll_head t = None" and "elapsed t > timeout" and "poll_lock t = None"
  shows "\<exists>out snap p.
           run_script script_dropdown question sur w = Some out \<and>
           returned out = Inr snap \<and>
           length (yielded out) = length before \<and>
           current_process (final_world out) = Some p \<and> sigterm_sent p \<and>
           log_text snap =
             concat (concat (map arrived before) @ arrived t @ [TIMEOUT_LINE] @ late sur) \<and>
           status snap =
             (case poll_final sur of
                None \<Rightarrow> STATUS_RUNNING
              | Some code \<Rightarrow> if code = 0 then STATUS_OK else STATUS_FAILED code)"
proof -
  from assms(1) obtain script_name where name: "map_of SCRIPTS script_dropdown = Some script_name"
    by (cases "map_of SCRIPTS script_dropdown") (auto simp: map_of_eq_None_iff)
  from assms(2) have q: "strip question \<noteq> []"
    by (simp add: strip_empty_iff)
  define log_file where "log_file = ascii ''logs/'' @ replace script_name (ascii ''.py'') []
                              @ ascii ''_'' @ timestamp sur @ ascii ''.log''"
  define p0 where "p0 = \<lparr>args = [executable sur, ascii ''owl/script_adapter.py'',
                                  ascii ''owl/'' @ script_name],
                          penv = (environ w)(ascii ''OWL_QUESTION'' \<mapsto> question),
                          returncode = None, sigterm_sent = False\<rparr>"
  have alive: "returncode p0 = None" by (simp add: p0_def)
  from run_loop_timeout [OF alive assms(5,6,7,8), of log_file after "[]" "[]"]
  obtain snaps lg qf where
    run: "run_loop log_file (ticks sur) [] p0 [] = Some (snaps, Inr (lg, terminate p0, qf))"
    and lines: "lg @ qf = concat (map arrived before) @ arrived t @ [TIMEOUT_LINE]"
    and len: "length snaps = length before"
    using assms(4) by auto
  obtain chat_history where ch: "extract_chat_history (lg @ qf @ late sur) = Inr chat_history"
    using extract_chat_history_total by blast
  obtain ans where ans: "extract_answer (lg @ qf @ late sur) = Inr ans"
    using extract_answer_total by blast
  obtain st p' where sm: "status_message (poll_final sur) (terminate p0) = (st, p')"
    by (cases "status_message (poll_final sur) (terminate p0)")
  have tp: "returncode (terminate p0) = None" by (simp add: terminate_def p0_def)
  from sm status_message_status [OF tp, of "poll_final sur"]
  have st: "st = (case poll_final sur of None \<Rightarrow> STATUS_RUNNING
                  | Some code \<Rightarrow> if code = 0 then STATUS_OK else STATUS_FAILED code)"
    by simp
  from sm status_message_handle [of "poll_final sur" "terminate p0"]
  have "p' = poll (poll_final sur) (terminate p0)" by simp
  then have sig: "sigterm_sent p'"
    by (simp add: poll_def terminate_def p0_def)
  have lines': "lg @ qf @ late sur
                  = concat (map arrived before) @ arrived t @ [TIMEOUT_LINE] @ late sur"
    using lines by (metis append_assoc)
  let ?w2 = "w\<lparr>log_queue := [], logs_dir := True, current_process := Some p0,
               launched := launched w @ [p0]\<rparr>"
  have "run_script script_dropdown question sur w =
          Some \<lparr>yielded = snaps,
                returned = Inr \<lparr>status = st, answer = ans,
                               log_text = concat (lg @ qf @ late sur),
                               log_path = log_file, chat = chat_history\<rparr>,
                final_world = ?w2\<lparr>log_queue := [], current_process := Some p'\<rparr>\<rparr>"
    using name q assms(3) run ch ans sm
    by (simp add: run_script_def Let_def log_file_def [symmetric] p0_def [symmetric])
  with len sig st show ?thesis by (simp del: concat_append add: lines')
qed


theorem run_script_timeout_witness:
  "ascii ''Mini'' \<in> fst ` set SCRIPTS \<and>
   (\<exists>c \<in> set (ascii ''hi''). \<not> is_space c) \<and>
   (\<exists>out snap p.
      run_script (ascii ''Mini'') (ascii ''hi'')
        \<lparr>executable = ascii ''python'', timestamp = ascii ''20250101_120000'',
         spawn_ok = True,
         ticks = [\<lparr>arrived = [ascii ''step 1'' @ [10]], poll_head = None, elapsed = 1,
                   poll_lock = None, poll_status = None\<rparr>,
                  \<lparr>arrived = [ascii ''step 2'' @ [10]], poll_head = None, elapsed = 1801,
                   poll_lock = None, poll_status = None\<rparr>],
         late = [], poll_final = Some (- 15)\<rparr>
        initial_world = Some out \<and>
      returned out = Inr snap \<and>
      length (yielded out) = 1 \<and>
      current_process (final_world out) = Some p \<and> sigterm_sent p \<and>
      log_text snap = ascii ''step 1'' @ [10] @ ascii ''step 2'' @ [10] @ TIMEOUT_LINE \<and>
      status snap = STATUS_FAILED (- 15))"
proof -
  let ?t1 = "\<lparr>arrived = [ascii ''step 1'' @ [10]], poll_head = None, elapsed = 1,
              poll_lock = None, poll_status = None\<rparr>"
  let ?t2 = "\<lparr>arrived = [ascii ''step 2'' @ [10]], poll_head = None, elapsed = 1801,
              poll_lock = None, poll_status = None\<rparr>"
  let ?sur = "\<lparr>executable = ascii ''python'', timestamp = ascii ''20250101_120000'',
               spawn_ok = True, ticks = [?t1, ?t2], late = [], poll_final = Some (- 15)\<rparr>"
  have h1: "ascii ''Mini'' \<in> fst ` set SCRIPTS"
    by (simp add: SCRIPTS_def ascii_def)
  have h2: "\<exists>c \<in> set (ascii ''hi''). \<not> is_space c"
    by (simp add: is_space_def ascii_def)
  have h3: "spawn_ok ?sur" by simp
  have h4: "ticks ?sur = [?t1] @ ?t2 # []" by simp
  have h5: "\<forall>u \<in> set [?t1]. poll_head u = None \<and> elapsed u \<le> timeout \<and> poll_status u = None"
    by (simp add: timeout_def)
  have h6: "poll_head ?t2 = None" by simp
  have h7: "elapsed ?t2 > timeout" by (simp add: timeout_def)
  have h8: "poll_lock ?t2 = None" by simp
  from run_script_timeout [OF h1 h2 h3 h4 h5 h6 h7 h8, of initial_world] h1 h2
  show ?thesis by simp
qed

text \<open>
  The claim as it was stated asks for a timeout status in the final snapshot. In a run
  that times out at its first pass, the final status is the running text when the process
  has not exited by the last \<open>poll()\<close>, and when it has exited with code -15 it is the
  text that \<open>status_message\<close> gives to any process that exits with that code.
\<close>

theorem run_script_timeout_status_counterexample:
  "map_option (map_sum id status \<circ> returned)
     (run_script (ascii ''Mini'') (ascii ''hi'')
        \<lparr>executable = ascii ''python'', timestamp = ascii ''20250101_120000'',
         spawn_ok = True,
         ticks = [\<lparr>arrived = [ascii ''step 1'' @ [10]], poll_head = None, elapsed = 1801,
                   poll_lock = None, poll_status = None\<rparr>],
         late = [], poll_final = None\<rparr>
        initial_world)
     = Some (Inr STATUS_RUNNING) \<and>
   map_option (map_sum id status \<circ> returned)
     (run_script (ascii ''Mini'') (ascii ''hi'')
        \<lparr>executable = ascii ''python'', timestamp = ascii ''20250101_120000'',
         spawn_ok = True,
         ticks = [\<lparr>arrived = [ascii ''step 1'' @ [10]], poll_head = None, elapsed = 1801,
                   poll_lock = None, poll_status = None\<rparr>],
         late = [], poll_final = Some (- 15)\<rparr>
        initial_world)
     = Some (Inr (fst (status_message (Some (- 15))
                    \<lparr>args = [], penv = Map.empty, returncode = None,
                     sigterm_sent = False\<rparr>)))"
    by (simp add: run_script_def SCRIPTS_def ascii_def strip_def is_space_def timeout_def poll_def terminate_def status_message_def Let_def extract_chat_history_def contains_def startswith_def CHAT_HISTORY_def ANSWER_def TIMEOUT_LINE_def initial_world_def)

section \<open>Claims about \<open>extract_chat_history\<close>\<close>

text \<open>The definitions that evaluating the model on a given log unfolds.\<close>

lemmas eval_text = ascii_def contains_def startswith_def strip_def is_space_def split1_def index_def

lemmas eval_json = json_loads_def is_json_ws_def cons_token_def next_token_def scan_number_def
  int_part_def
  frac_part_def exp_part_def is_digit_def int_value_def decimal_value_def hex4_def hex_digit_def
  unescape_def

lemmas eval_chat = extract_chat_history_def assemble_def decode_chat_def format_msg_def
  dict_get_def CHAT_HISTORY_def LABEL_USER_def LABEL_ASSISTANT_def

text \<open>Lines without the marker are passed over.\<close>

lemma scan_logs_skip:
  "\<forall>l \<in> set before. \<not> contains l CHAT_HISTORY \<Longrightarrow>
   scan_logs (before @ rest) = scan_logs rest"
  by (induction before) simp_all

text \<open>
  When decoding raises for the text assembled at every line that has the marker and an
  opening bracket, the loop either runs to its end or is left by an exception.
\<close>

lemma scan_logs_all_fail:
  assumes "\<And>before line rest start_idx json_str.
             logs = before @ line # rest \<Longrightarrow> contains line CHAT_HISTORY \<Longrightarrow>
             str_find line [91] = Some start_idx \<Longrightarrow>
             assemble line start_idx rest = Inr json_str \<Longrightarrow>
             \<exists>e. decode_chat json_str = Inl e"
  shows "scan_logs logs = Inr None \<or> (\<exists>e. scan_logs logs = Inl e)"
  using assms
proof (induction logs)
  case Nil
  then show ?case by simp
next
  case (Cons line rest)
  have IH: "scan_logs rest = Inr None \<or> (\<exists>e. scan_logs rest = Inl e)"
  proof (rule Cons.IH)
    fix before l rest' start_idx json_str
    assume "rest = before @ l # rest'"
    then have "line # rest = (line # before) @ l # rest'" by simp
    moreover assume "contains l CHAT_HISTORY" "str_find l [91] = Some start_idx"
      "assemble l start_idx rest' = Inr json_str"
    ultimately show "\<exists>e. decode_chat json_str = Inl e" by (rule Cons.prems)
  qed
  show ?case
  proof (cases "contains line CHAT_HISTORY")
    case False
    with IH show ?thesis by simp
  next
    case marker: True
    show ?thesis
    proof (cases "str_find line [91]")
      case None
      with marker IH show ?thesis by simp
    next
      case (Some start_idx)
      show ?thesis
      proof (cases "assemble line start_idx rest")
        case (Inl e)
        with marker Some show ?thesis by simp
      next
        case (Inr json_str)
        have "line # rest = [] @ line # rest" by simp
        from Cons.prems [OF this marker Some Inr]
        obtain e where "decode_chat json_str = Inl e" by blast
        with marker Some Inr IH show ?thesis by simp
      qed
    qed
  qed
qed

text \<open>
  Claim C5. \<open>extract_chat_history\<close> never raises, whatever the log is. And when the text
  assembled after the marker cannot be decoded, that is, when decoding or formatting it
  raises at every line that has the marker and an opening bracket, the result is \<open>None\<close>.
\<close>

theorem extract_chat_history_never_raises:
  "(\<exists>r. extract_chat_history logs = Inr r) \<and>
   ((\<forall>before line rest start_idx json_str.
       logs = before @ line # rest \<and> contains line CHAT_HISTORY \<and>
       str_find line [91] = Some start_idx \<and>
       assemble line start_idx rest = Inr json_str
       \<longrightarrow> (\<exists>e. decode_chat json_str = Inl e))
    \<longrightarrow> extract_chat_history logs = Inr None)"
proof (intro conjI impI)
  show "\<exists>r. extract_chat_history logs = Inr r"
    by (simp add: extract_chat_history_def split: sum.splits)
next
  assume "\<forall>before line rest start_idx json_str.
       logs = before @ line # rest \<and> contains line CHAT_HISTORY \<and>
       str_find line [91] = Some start_idx \<and>
       assemble line start_idx rest = Inr json_str
       \<longrightarrow> (\<exists>e. decode_chat json_str = Inl e)"
  then have "scan_logs logs = Inr None \<or> (\<exists>e. scan_logs logs = Inl e)"
    by (intro scan_logs_all_fail) blast
  then show "extract_chat_history logs = Inr None"
    by (auto simp: extract_chat_history_def)
qed

theorem extract_chat_history_never_raises_witness:
  "decode_chat (ascii ''[1, 2'') = Inl JSONDecodeError \<and>
   extract_chat_history [ascii ''chat_history: [1, 2''] = Inr None"
proof -
  let ?l = "ascii ''chat_history: [1, 2''"
  have a: "str_find ?l [91] = Some 14" by (simp add: eval_text eval_json eval_chat)
  have b: "assemble ?l 14 [] = Inr (ascii ''[1, 2'')" by (simp add: eval_text eval_json eval_chat)
  have c: "decode_chat (ascii ''[1, 2'') = Inl JSONDecodeError" by (simp add: eval_text eval_json eval_chat)
  have h: "\<forall>before line rest start_idx json_str.
       [?l] = before @ line # rest \<and> contains line CHAT_HISTORY \<and>
       str_find line [91] = Some start_idx \<and>
       assemble line start_idx rest = Inr json_str
       \<longrightarrow> (\<exists>e. decode_chat json_str = Inl e)"
  proof (intro allI impI, elim conjE)
    fix before line rest start_idx json_str
    assume "[?l] = before @ line # rest"
    then have "line = ?l" "rest = []"
      by (simp_all add: Cons_eq_append_conv)
    moreover assume "str_find line [91] = Some start_idx"
      "assemble line start_idx rest = Inr json_str"
    ultimately have "json_str = ascii ''[1, 2''" using a b by simp
    with c show "\<exists>e. decode_chat json_str = Inl e" by blast
  qed
  from extract_chat_history_never_raises [of "[?l]"] h c show ?thesis by blast
qed

text \<open>
  While the bottom frame of the stack is that of an array, the machine can only finish on
  a closing bracket: every step either keeps a non-empty stack with the same kind of
  bottom frame, or empties it on a closing bracket.
\<close>

lemma push_value_bottom:
  assumes "push_value v st = Some (m', st')" and "st \<noteq> []"
  shows "st' \<noteq> [] \<and> (\<forall>x. m' \<noteq> MDone x) \<and> is_arr (last st') = is_arr (last st)"
  using assms by (cases st; cases "hd st"; cases "tl st") auto

lemma begin_value_bottom:
  assumes "begin_value t st = Some (m', st')" and "st \<noteq> []"
  shows "st' \<noteq> [] \<and> (\<forall>x. m' \<noteq> MDone x) \<and> is_arr (last st') = is_arr (last st)"
proof (cases t)
  case (TStr s)
  with assms push_value_bottom [of "JString s" st m' st'] show ?thesis by simp
next
  case (TAtom v)
  with assms push_value_bottom [of v st m' st'] show ?thesis by simp
qed (use assms in auto)

lemma close_array_bottom:
  assumes "close_array st = Some (m', st')" and "is_arr (last st)" and "st \<noteq> []"
  shows "(st' \<noteq> [] \<and> (\<forall>x. m' \<noteq> MDone x) \<and> is_arr (last st')) \<or>
         (st' = [] \<and> (\<exists>x. m' = MDone x))"
proof -
  from assms(1) obtain xs rest where st: "st = FArr xs # rest"
    and pv: "push_value (JArray (rev xs)) rest = Some (m', st')"
    by (cases st; cases "hd st") auto
  show ?thesis
  proof (cases rest)
    case Nil
    with pv show ?thesis by auto
  next
    case (Cons f fs)
    with push_value_bottom [OF pv] assms(2) st show ?thesis by simp
  qed
qed

lemma close_object_bottom:
  assumes "close_object st = Some (m', st')" and "is_arr (last st)" and "st \<noteq> []"
  shows "st' \<noteq> [] \<and> (\<forall>x. m' \<noteq> MDone x) \<and> is_arr (last st')"
proof -
  from assms(1) obtain ms rest where st: "st = FObj ms # rest"
    and pv: "push_value (JObject (rev ms)) rest = Some (m', st')"
    by (cases st; cases "hd st") auto
  from st assms(2) have "rest \<noteq> []" by auto
  with push_value_bottom [OF pv] assms(2) st show ?thesis by simp
qed

lemma begin_key_bottom:
  assumes "begin_key t st = Some (m', st')" and "st \<noteq> []"
  shows "st' \<noteq> [] \<and> (\<forall>x. m' \<noteq> MDone x) \<and> is_arr (last st') = is_arr (last st)"
  using assms by (cases t; cases st; cases "hd st"; cases "tl st") auto

lemma step_bottom:
  assumes "step m st t = Some (m', st')" and "st \<noteq> []" and "\<forall>x. m \<noteq> MDone x"
    and "is_arr (last st)"
  shows "(st' \<noteq> [] \<and> (\<forall>x. m' \<noteq> MDone x) \<and> is_arr (last st')) \<or>
         (st' = [] \<and> t = TRBrack \<and> (\<exists>x. m' = MDone x))"
proof (cases m)
  case MValue
  with assms begin_value_bottom [of t st m' st'] show ?thesis by simp
next
  case MValueOrClose
  show ?thesis
  proof (cases "t = TRBrack")
    case True
    with MValueOrClose assms close_array_bottom [of st m' st'] show ?thesis by auto
  next
    case False
    with MValueOrClose assms begin_value_bottom [of t st m' st'] show ?thesis by simp
  qed
next
  case MKeyOrClose
  show ?thesis
  proof (cases "t = TRBrace")
    case True
    with MKeyOrClose assms close_object_bottom [of st m' st'] show ?thesis by auto
  next
    case False
    with MKeyOrClose assms begin_key_bottom [of t st m' st'] show ?thesis by simp
  qed
next
  case MKey
  with assms begin_key_bottom [of t st m' st'] show ?thesis by simp
next
  case MColon
  with assms show ?thesis by (auto split: if_splits)
next
  case MAfter
  show ?thesis
  proof (cases "t = TComma")
    case True
    with MAfter assms show ?thesis
      by (auto split: list.splits frame.splits)
  next
    case False
    show ?thesis
    proof (cases "t = TRBrack")
      case True
      with MAfter assms close_array_bottom [of st m' st'] show ?thesis by auto
    next
      case notb: False
      with False MAfter assms close_object_bottom [of st m' st'] show ?thesis
        by (auto split: if_splits)
    qed
  qed
next
  case (MDone v)
  with assms show ?thesis by simp
qed

lemma parse_done: "parse (MDone v) st ts = Some v' \<Longrightarrow> ts = []"
  by (cases ts) auto

lemma parse_array_closes:
  assumes "parse m st ts = Some v" and "st \<noteq> []" and "\<forall>x. m \<noteq> MDone x"
    and "is_arr (last st)"
  shows "ts \<noteq> [] \<and> last ts = TRBrack"
  using assms
proof (induction ts arbitrary: m st)
  case Nil
  then show ?case by (cases m) auto
next
  case (Cons t ts)
  from Cons.prems(1) obtain m' st' where stp: "step m st t = Some (m', st')"
    and rest: "parse m' st' ts = Some v"
    by (auto split: option.splits)
  from step_bottom [OF stp Cons.prems(2,3,4)] show ?case
  proof
    assume "st' \<noteq> [] \<and> (\<forall>x. m' \<noteq> MDone x) \<and> is_arr (last st')"
    with Cons.IH [OF rest] show ?thesis by simp
  next
    assume "st' = [] \<and> t = TRBrack \<and> (\<exists>x. m' = MDone x)"
    with rest parse_done show ?thesis by auto
  qed
qed

text \<open>
  The last token of a text is its last code point that is not whitespace; when that
  token is a closing bracket, the text ends with \<open>]\<close> and whitespace.
\<close>

lemma lex_no_tokens: "lex s = Some [] \<Longrightarrow> \<forall>c \<in> set s. is_json_ws c"
proof (induction s rule: lex.induct)
  case 1
  then show ?case by simp
next
  case (2 c cs)
  show ?case
  proof (cases "is_json_ws c")
    case True
    with 2 show ?thesis by simp
  next
    case False
    with "2.prems" show ?thesis
      by (auto simp: cons_token_def split: option.splits)
  qed
qed

lemma next_token_bracket: "next_token s = Some (TRBrack, n) \<Longrightarrow> n = 1 \<and> hd s = 93"
  by (auto simp: next_token_def split: list.splits if_splits option.splits)

lemma lex_last_bracket:
  assumes "lex s = Some ts" and "ts \<noteq> []" and "last ts = TRBrack"
  shows "\<exists>pre w. s = pre @ 93 # w \<and> (\<forall>c \<in> set w. is_json_ws c)"
  using assms
proof (induction s arbitrary: ts rule: lex.induct)
  case 1
  then show ?case by simp
next
  case (2 c cs)
  show ?case
  proof (cases "is_json_ws c")
    case True
    with "2.prems" have "lex cs = Some ts" by simp
    from "2.IH"(1) [OF True this "2.prems"(2,3)]
    obtain pre w where "cs = pre @ 93 # w" "\<forall>c \<in> set w. is_json_ws c" by blast
    then have "c # cs = (c # pre) @ 93 # w" by simp
    with \<open>\<forall>c \<in> set w. is_json_ws c\<close> show ?thesis by blast
  next
    case False
    with "2.prems"(1) obtain t n ts' where tok: "next_token (c # cs) = Some (t, n)"
      and rest: "lex (drop (n - 1) cs) = Some ts'" and ts: "ts = t # ts'"
      by (auto simp: cons_token_def split: option.splits)
    show ?thesis
    proof (cases "ts' = []")
      case True
      with ts "2.prems"(3) have "t = TRBrack" by simp
      with tok next_token_bracket have n: "n = 1" and c: "c = 93" by fastforce+
      from rest True n have "\<forall>x \<in> set cs. is_json_ws x"
        using lex_no_tokens by simp
      with c have "c # cs = [] @ 93 # cs \<and> (\<forall>x \<in> set cs. is_json_ws x)" by simp
      then show ?thesis by blast
    next
      case ne: False
      with ts "2.prems"(3) have "last ts' = TRBrack" by simp
      from "2.IH"(2) [OF False tok refl rest ne this]
      obtain pre w where dec: "drop (n - 1) cs = pre @ 93 # w"
        and ws: "\<forall>c \<in> set w. is_json_ws c"
        by blast
      have "c # cs = (c # take (n - 1) cs) @ drop (n - 1) cs" by simp
      with dec have "c # cs = (c # take (n - 1) cs @ pre) @ 93 # w" by simp
      with ws show ?thesis by blast
    qed
  qed
qed

lemma json_ws_is_space: "is_json_ws c \<Longrightarrow> is_space c"
  by (auto simp: is_json_ws_def is_space_def)

text \<open>
  A stripped text that begins with an opening bracket and that \<open>json.loads\<close> accepts
  ends with a closing bracket.
\<close>

lemma json_array_text_closes:
  assumes "json_loads (strip (91 # body)) = Inr v"
  shows "last (strip (91 # body)) = 93"
proof -
  let ?s = "strip (91 # body)"
  have not_space: "\<not> is_space 91" by (simp add: is_space_def)
  then have ne: "?s \<noteq> []" and hd: "hd ?s = 91"
    using strip_keeps_hd [of "91 # body"] by simp_all
  then obtain rest where s: "?s = 91 # rest" by (cases ?s) auto
  from assms obtain ts where lx: "lex ?s = Some ts" and ps: "parse MValue [] ts = Some v"
    by (auto simp: json_loads_def split: option.splits)
  have "\<not> is_json_ws 91" by (simp add: is_json_ws_def)
  with lx s obtain ts' where ts: "ts = TLBrack # ts'"
    by (auto simp: next_token_def cons_token_def split: option.splits)
  with ps have "parse MValueOrClose [FArr []] ts' = Some v" by simp
  from parse_array_closes [OF this] have "ts' \<noteq> []" "last ts' = TRBrack" by simp_all
  with ts have "ts \<noteq> []" "last ts = TRBrack" by simp_all
  from lex_last_bracket [OF lx this]
  obtain pre w where dec: "?s = pre @ 93 # w" and ws: "\<forall>c \<in> set w. is_json_ws c" by blast
  have "w = []"
  proof (rule ccontr)
    assume "w \<noteq> []"
    with dec have "last ?s = last w" by simp
    moreover from \<open>w \<noteq> []\<close> ws have "is_json_ws (last w)" by simp
    ultimately have "is_space (last ?s)" by (simp add: json_ws_is_space)
    with strip_ends(2) [OF ne] show False by simp
  qed
  with dec show ?thesis by simp
qed

lemma json_loads_empty: "json_loads [] = Inl JSONDecodeError"
  by (simp add: json_loads_def)

text \<open>Formatting a list of objects that all have both fields keeps every one of them.\<close>

lemma format_msg_object:
  assumes "dict_get kvs (ascii ''role'') = Some r" and "dict_get kvs (ascii ''content'') = Some c"
  shows "format_msg (JObject kvs) =
           Inr (Some (if r = JString (ascii ''user'') then LABEL_USER else LABEL_ASSISTANT, c))"
  using assms by (simp add: format_msg_def)

lemma format_chat_objects:
  assumes "\<forall>m \<in> set msgs. \<exists>kvs. m = JObject kvs \<and>
             dict_get kvs (ascii ''role'') \<noteq> None \<and> dict_get kvs (ascii ''content'') \<noteq> None"
  shows "\<exists>entries. format_chat acc msgs = Inr (acc @ entries) \<and>
           length entries = length msgs \<and>
           (\<forall>i < length msgs. \<forall>kvs. msgs ! i = JObject kvs \<longrightarrow>
              fst (entries ! i) =
                (if dict_get kvs (ascii ''role'') = Some (JString (ascii ''user''))
                 then LABEL_USER else LABEL_ASSISTANT) \<and>
              dict_get kvs (ascii ''content'') = Some (snd (entries ! i)))"
  using assms
proof (induction msgs arbitrary: acc)
  case Nil
  then show ?case by simp
next
  case (Cons m msgs)
  from Cons.prems obtain kvs r c where m: "m = JObject kvs"
    and r: "dict_get kvs (ascii ''role'') = Some r"
    and c: "dict_get kvs (ascii ''content'') = Some c"
    by auto
  define entry where
    "entry = (if r = JString (ascii ''user'') then LABEL_USER else LABEL_ASSISTANT, c)"
  from Cons.prems have "\<forall>m \<in> set msgs. \<exists>kvs. m = JObject kvs \<and>
             dict_get kvs (ascii ''role'') \<noteq> None \<and> dict_get kvs (ascii ''content'') \<noteq> None"
    by simp
  from Cons.IH [OF this, of "acc @ [entry]"]
  obtain entries where run: "format_chat (acc @ [entry]) msgs = Inr ((acc @ [entry]) @ entries)"
    and len: "length entries = length msgs"
    and each: "\<forall>i < length msgs. \<forall>kvs. msgs ! i = JObject kvs \<longrightarrow>
              fst (entries ! i) =
                (if dict_get kvs (ascii ''role'') = Some (JString (ascii ''user''))
                 then LABEL_USER else LABEL_ASSISTANT) \<and>
              dict_get kvs (ascii ''content'') = Some (snd (entries ! i))"
    by blast
  have "format_chat acc (m # msgs) = Inr (acc @ entry # entries)"
    using run m format_msg_object [OF r c] by (simp add: entry_def)
  moreover have "length (entry # entries) = length (m # msgs)" using len by simp
  moreover have "\<forall>i < length (m # msgs). \<forall>kvs'. (m # msgs) ! i = JObject kvs' \<longrightarrow>
              fst ((entry # entries) ! i) =
                (if dict_get kvs' (ascii ''role'') = Some (JString (ascii ''user''))
                 then LABEL_USER else LABEL_ASSISTANT) \<and>
              dict_get kvs' (ascii ''content'') = Some (snd ((entry # entries) ! i))"
  proof (intro allI impI)
    fix i kvs'
    assume i: "i < length (m # msgs)" and at: "(m # msgs) ! i = JObject kvs'"
    show "fst ((entry # entries) ! i) =
                (if dict_get kvs' (ascii ''role'') = Some (JString (ascii ''user''))
                 then LABEL_USER else LABEL_ASSISTANT) \<and>
              dict_get kvs' (ascii ''content'') = Some (snd ((entry # entries) ! i))"
    proof (cases i)
      case 0
      with at m have "kvs' = kvs" by simp
      with 0 r c show ?thesis by (simp add: entry_def)
    next
      case (Suc j)
      with i at each show ?thesis by simp
    qed
  qed
  ultimately show ?case by blast
qed

text \<open>
  Claim C4, as the code has it. Take a line that contains the marker and whose first
  opening bracket begins a well-formed JSON array that runs to the end of the line
  (surrounding whitespace apart), every element being an object with the fields \<open>role\<close>
  and \<open>content\<close>; no line before it contains the marker. Then the transcript has one
  entry per element, in the order of the array: the label is the first one when the role
  is the string \<open>user\<close> and the second one for every other role, and the content is the
  element's content.
\<close>

theorem extract_chat_history_single_line:
  assumes "\<forall>l \<in> set before. \<not> contains l CHAT_HISTORY"
    and "contains (pre @ 91 # body) CHAT_HISTORY"
    and "91 \<notin> set pre"
    and "json_loads (strip (91 # body)) = Inr (JArray msgs)"
    and "\<forall>m \<in> set msgs. \<exists>kvs. m = JObject kvs \<and>
           dict_get kvs (ascii ''role'') \<noteq> None \<and> dict_get kvs (ascii ''content'') \<noteq> None"
  shows "\<exists>entries.
           extract_chat_history (before @ (pre @ 91 # body) # later) = Inr (Some entries) \<and>
           length entries = length msgs \<and>
           (\<forall>i < length msgs. \<forall>kvs. msgs ! i = JObject kvs \<longrightarrow>
              fst (entries ! i) =
                (if dict_get kvs (ascii ''role'') = Some (JString (ascii ''user''))
                 then LABEL_USER else LABEL_ASSISTANT) \<and>
              dict_get kvs (ascii ''content'') = Some (snd (entries ! i)))"
proof -
  let ?line = "pre @ 91 # body"
  have start: "str_find ?line [91] = Some (length pre)"
    using assms(3) by (rule find_first_char)
  have nonempty: "strip (91 # body) \<noteq> []"
    using assms(4) json_loads_empty by auto
  have "last (strip (91 # body)) = 93"
    using assms(4) by (rule json_array_text_closes)
  with nonempty have asm: "assemble ?line (length pre) later = Inr (strip (91 # body))"
    by (simp add: assemble_def)
  from format_chat_objects [OF assms(5), of "[]"]
  obtain entries where fmt: "format_chat [] msgs = Inr entries"
    and len: "length entries = length msgs"
    and each: "\<forall>i < length msgs. \<forall>kvs. msgs ! i = JObject kvs \<longrightarrow>
              fst (entries ! i) =
                (if dict_get kvs (ascii ''role'') = Some (JString (ascii ''user''))
                 then LABEL_USER else LABEL_ASSISTANT) \<and>
              dict_get kvs (ascii ''content'') = Some (snd (entries ! i))"
    by auto
  have "decode_chat (strip (91 # body)) = Inr entries"
    using assms(4) fmt by (simp add: decode_chat_def)
  with assms(2) start asm have "scan_logs (?line # later) = Inr (Some entries)"
    by simp
  with assms(1) have "scan_logs (before @ ?line # later) = Inr (Some entries)"
    by (simp add: scan_logs_skip)
  then have "extract_chat_history (before @ ?line # later) = Inr (Some entries)"
    by (simp add: extract_chat_history_def)
  with len each show ?thesis by blast
qed

theorem extract_chat_history_single_line_witness:
  \<open>contains (ascii ''chat_history: '' @ 91 #
               ascii ''{"role": "user", "content": "hi"}, {"role": "tool", "content": "ok"}]'' @ [10])
     CHAT_HISTORY \<and>
   91 \<notin> set (ascii ''chat_history: '') \<and>
   extract_chat_history
     [ascii ''step 1'' @ [10],
      ascii ''chat_history: '' @ 91 #
        ascii ''{"role": "user", "content": "hi"}, {"role": "tool", "content": "ok"}]'' @ [10],
      ascii ''done'' @ [10]]
     = Inr (Some [(LABEL_USER, JString (ascii ''hi'')), (LABEL_ASSISTANT, JString (ascii ''ok''))])\<close>
proof -
  let ?body = \<open>ascii ''{"role": "user", "content": "hi"}, {"role": "tool", "content": "ok"}]'' @ [10]\<close>
  let ?pre = "ascii ''chat_history: ''"
  let ?msgs = "[JObject [(ascii ''role'', JString (ascii ''user'')),
                         (ascii ''content'', JString (ascii ''hi''))],
                JObject [(ascii ''role'', JString (ascii ''tool'')),
                         (ascii ''content'', JString (ascii ''ok''))]]"
  have h1: "\<forall>l \<in> set [ascii ''step 1'' @ [10]]. \<not> contains l CHAT_HISTORY" by (simp add: eval_text eval_json eval_chat)
  have h2: "contains (?pre @ 91 # ?body) CHAT_HISTORY" by (simp add: eval_text eval_json eval_chat)
  have h3: "91 \<notin> set ?pre" by (simp add: eval_text eval_json eval_chat)
  have h4: "json_loads (strip (91 # ?body)) = Inr (JArray ?msgs)" by (simp add: eval_text eval_json eval_chat)
  have h6: "\<forall>m \<in> set ?msgs. \<exists>kvs. m = JObject kvs \<and>
           dict_get kvs (ascii ''role'') \<noteq> None \<and> dict_get kvs (ascii ''content'') \<noteq> None"
    by (simp add: dict_get_def)
  from extract_chat_history_single_line [OF h1 h2 h3 h4 h6, of "[ascii ''done'' @ [10]]"]
  obtain entries where
    run: "extract_chat_history ([ascii ''step 1'' @ [10]] @ (?pre @ 91 # ?body) # [ascii ''done'' @ [10]])
            = Inr (Some entries)"
    and len: "length entries = length ?msgs"
    and each: "\<forall>i < length ?msgs. \<forall>kvs. ?msgs ! i = JObject kvs \<longrightarrow>
              fst (entries ! i) =
                (if dict_get kvs (ascii ''role'') = Some (JString (ascii ''user''))
                 then LABEL_USER else LABEL_ASSISTANT) \<and>
              dict_get kvs (ascii ''content'') = Some (snd (entries ! i))"
    by blast
  from len obtain e0 e1 where es: "entries = [e0, e1]"
    by (cases entries; cases "tl entries") auto
  from each [rule_format, of 0] es have "e0 = (LABEL_USER, JString (ascii ''hi''))"
    by (cases e0) (simp add: dict_get_def ascii_def)
  moreover from each [rule_format, of 1] es have "e1 = (LABEL_ASSISTANT, JString (ascii ''ok''))"
    by (cases e1) (simp add: dict_get_def ascii_def)
  ultimately show ?thesis using run es h2 h3 by simp
qed

text \<open>
  The claim as it was stated speaks of every line that contains the marker and a
  well-formed array. The code takes the text from the first opening bracket of the line,
  so a bracket before the array makes decoding fail: the same array gives its transcript
  after the plain marker and \<open>None\<close> after a bracketed prefix.
\<close>

theorem extract_chat_history_bracket_prefix_counterexample:
  \<open>json_loads (ascii ''[{"role": "user", "content": "hi"}]'')
     = Inr (JArray [JObject [(ascii ''role'', JString (ascii ''user'')),
                             (ascii ''content'', JString (ascii ''hi''))]]) \<and>
   extract_chat_history [ascii ''chat_history: [{"role": "user", "content": "hi"}]'']
     = Inr (Some [(LABEL_USER, JString (ascii ''hi''))]) \<and>
   extract_chat_history [ascii ''[INFO] chat_history: [{"role": "user", "content": "hi"}]'']
     = Inr None\<close>
  by (simp add: eval_text eval_json eval_chat)

text \<open>
  Claim C1. The claim is that an array split across up to nine following lines is put
  together again and gives the transcript of the same array on one line. The code looks
  through the following lines for the first one with a closing bracket and appends that
  line only, up to the bracket; the lines in between are never appended. An array split
  across three lines therefore gives \<open>None\<close> where the same array on one line gives
  its two entries, and an array printed one element per line gives an empty transcript.
\<close>

theorem extract_chat_history_three_lines:
  \<open>extract_chat_history
     [ascii ''chat_history: [{"role": "user", "content": "hi"},'' @ [10],
      ascii '' {"role": "assistant",'' @ [10],
      ascii '' "content": "yo"}]'' @ [10]]
     = Inr None \<and>
   extract_chat_history
     [ascii ''chat_history: [{"role": "user", "content": "hi"}, {"role": "assistant", "content": "yo"}]'' @ [10]]
     = Inr (Some [(LABEL_USER, JString (ascii ''hi'')), (LABEL_ASSISTANT, JString (ascii ''yo''))]) \<and>
   extract_chat_history
     [ascii ''chat_history: ['' @ [10],
      ascii ''  {"role": "user", "content": "hi"}'' @ [10],
      ascii '']'' @ [10]]
     = Inr (Some [])\<close>
  by (simp add: eval_text eval_json eval_chat)

text \<open>What the code does with a split array: the two cases of one later line.\<close>

lemma decode_unclosed:
  assumes "last (strip (91 # body)) \<noteq> 93"
  shows "decode_chat (strip (91 # body)) = Inl JSONDecodeError"
proof (cases "json_loads (strip (91 # body))")
  case (Inl e)
  then have "e = JSONDecodeError"
    by (auto simp: json_loads_def split: option.splits)
  with Inl show ?thesis by (simp add: decode_chat_def)
next
  case (Inr v)
  from json_array_text_closes [OF this] assms show ?thesis by simp
qed

lemma closing_piece_none: "\<forall>l \<in> set ls. 93 \<notin> set l \<Longrightarrow> closing_piece ls = None"
proof (induction ls)
  case Nil
  then show ?case by simp
next
  case (Cons l ls)
  have "str_find l [93] = None"
  proof (rule ccontr)
    assume "str_find l [93] \<noteq> None"
    then obtain i where "str_find l [93] = Some i" by auto
    from find_Some_decomp [OF this] obtain v where "l = take i l @ [93] @ v" by blast
    then have "93 \<in> set l" by (metis in_set_conv_decomp append_Cons append_Nil)
    with Cons.prems show False by simp
  qed
  with Cons show ?case by simp
qed

lemma closing_piece_found:
  assumes "\<forall>l \<in> set skipped. 93 \<notin> set l" and "93 \<notin> set piece"
  shows "closing_piece (skipped @ (piece @ 93 # tail) # later) = Some (piece @ [93])"
  using assms(1)
proof (induction skipped)
  case Nil
  from find_first_char [OF assms(2), of tail] show ?case by simp
next
  case (Cons l skipped)
  then have "closing_piece [l] = None" by (intro closing_piece_none) simp
  then have "str_find l [93] = None" by (simp split: option.splits)
  with Cons show ?case by simp
qed

text \<open>
  An array that is not closed on the marker line, with no closing bracket in the nine
  lines that follow and no other line with the marker, gives \<open>None\<close>.
\<close>

lemma extract_chat_history_unclosed:
  assumes "\<forall>l \<in> set before. \<not> contains l CHAT_HISTORY"
    and "\<forall>l \<in> set rest. \<not> contains l CHAT_HISTORY"
    and "contains (pre @ 91 # body) CHAT_HISTORY" and "91 \<notin> set pre"
    and "last (strip (91 # body)) \<noteq> 93"
    and "\<forall>l \<in> set (take 9 rest). 93 \<notin> set l"
  shows "extract_chat_history (before @ (pre @ 91 # body) # rest) = Inr None"
proof -
  let ?line = "pre @ 91 # body"
  have start: "str_find ?line [91] = Some (length pre)"
    using assms(4) by (rule find_first_char)
  have "\<not> is_space 91" by (simp add: is_space_def)
  then have ne: "strip (91 # body) \<noteq> []"
    using strip_keeps_hd(1) [of "91 # body"] by simp
  from assms(6) have "closing_piece (take 9 rest) = None" by (rule closing_piece_none)
  with ne have "assemble ?line (length pre) rest = Inr (strip (91 # body))"
    by (simp add: assemble_def Let_def)
  with assms(3) start decode_unclosed [OF assms(5)]
  have "scan_logs (?line # rest) = scan_logs rest" by simp
  also from assms(2) have "scan_logs (rest @ []) = scan_logs []" by (rule scan_logs_skip)
  then have "scan_logs rest = Inr None" by simp
  finally have "scan_logs (before @ ?line # rest) = Inr None"
    using assms(1) by (simp add: scan_logs_skip)
  then show ?thesis by (simp add: extract_chat_history_def)
qed

text \<open>
  An array split in two pieces is put together again. If the array on one line, written
  as \<open>fragment @ piece @ ]\<close> after the text \<open>pre\<close> that holds the marker, gives the
  transcript \<open>t\<close>, then so does the log in which the marker line ends after \<open>fragment\<close>
  and \<open>piece ]\<close> begins the first later line with a closing bracket, fewer than nine
  lines further on. The lines in between are not looked at.
\<close>

lemma extract_chat_history_two_pieces:
  assumes "\<forall>l \<in> set before. \<not> contains l CHAT_HISTORY"
    and "contains pre CHAT_HISTORY" and "91 \<notin> set pre"
    and "fragment = strip (91 # body)" and "last fragment \<noteq> 93"
    and "length skipped < 9" and "\<forall>l \<in> set skipped. 93 \<notin> set l" and "93 \<notin> set piece"
    and "extract_chat_history [pre @ fragment @ piece @ [93]] = Inr (Some t)"
  shows "extract_chat_history
           (before @ (pre @ 91 # body) # skipped @ (piece @ 93 # tail) # later)
         = Inr (Some t)"
proof -
  let ?json = "fragment @ piece @ [93]"
  have not_space: "\<not> is_space 91" "\<not> is_space 93" by (simp_all add: is_space_def)
  from not_space(1) assms(4) have ne: "fragment \<noteq> []" and hd: "hd fragment = 91"
    using strip_keeps_hd [of "91 # body"] by simp_all
  then obtain f where f: "fragment = 91 # f" by (cases fragment) auto
  have marker: "contains (pre @ x) CHAT_HISTORY" for x
    using assms(2) by (auto simp: contains_iff) (metis append_assoc)
  \<comment> \<open>the array on one line\<close>
  have one_start: "str_find (pre @ ?json) [91] = Some (length pre)"
    using find_first_char [OF assms(3), of "f @ piece @ [93]"] f by simp
  have "strip (?json @ []) = ?json"
    using f not_space by (intro strip_trimmed) simp_all
  then have "assemble (pre @ ?json) (length pre) [] = Inr ?json"
    by (simp add: assemble_def Let_def)
  with marker [of ?json] one_start
  have "scan_logs [pre @ ?json] =
          (case decode_chat ?json of
             Inl e \<Rightarrow> if e = JSONDecodeError then Inr None else Inl e
           | Inr formatted_chat \<Rightarrow> Inr (Some formatted_chat))"
    by (simp split: sum.splits)
  with assms(9) have decoded: "decode_chat ?json = Inr t"
    by (auto simp: extract_chat_history_def split: sum.splits if_splits)
  \<comment> \<open>the array in two pieces\<close>
  let ?line = "pre @ 91 # body" and ?rest = "skipped @ (piece @ 93 # tail) # later"
  have start: "str_find ?line [91] = Some (length pre)"
    using assms(3) by (rule find_first_char)
  have "take 9 ?rest = skipped @ take (9 - length skipped) ((piece @ 93 # tail) # later)"
    using assms(6) by simp
  also have "\<dots> = skipped @ (piece @ 93 # tail) # take (8 - length skipped) later"
  proof -
    from assms(6) obtain n where n: "9 - length skipped = Suc n" "8 - length skipped = n"
      by (cases "9 - length skipped") auto
    then show ?thesis by simp
  qed
  finally have "closing_piece (take 9 ?rest) = Some (piece @ [93])"
    using closing_piece_found [OF assms(7,8)] by simp
  with ne assms(4,5) have "assemble ?line (length pre) ?rest = Inr ?json"
    by (simp add: assemble_def Let_def)
  with marker [of "91 # body"] start decoded
  have "scan_logs (?line # ?rest) = Inr (Some t)" by simp
  with assms(1) have "scan_logs (before @ ?line # ?rest) = Inr (Some t)"
    by (simp add: scan_logs_skip)
  then show ?thesis by (simp add: extract_chat_history_def)
qed

section \<open>Claims about the configuration\<close>

text \<open>An entry that the reader takes from a line is written back as a line that reads as itself.\<close>

lemma is_space_simps: "\<not> is_space 61" "\<not> is_space 35" "is_space 10"
  by (simp_all add: is_space_def)

lemma entry_line_reads_back:
  assumes "61 \<notin> set k" and "strip k = k" and "strip v = v" and "k \<noteq> [] \<longrightarrow> hd k \<noteq> 35"
  shows "read_line (env_line (k, v)) [] = Inr [(k, v)]"
proof -
  let ?x = "k @ [61] @ v"
  have x_ne: "?x \<noteq> []" by simp
  have hd_x: "\<not> is_space (hd ?x)" "hd ?x \<noteq> 35"
  proof -
    show "\<not> is_space (hd ?x)"
    proof (cases "k = []")
      case True
      then show ?thesis by (simp add: is_space_simps)
    next
      case False
      with assms(2) have "strip k \<noteq> []" by simp
      from strip_ends(1) [OF this] assms(2) False show ?thesis by simp
    qed
    show "hd ?x \<noteq> 35" using assms(4) by (cases k) auto
  qed
  have last_x: "\<not> is_space (last ?x)"
  proof (cases "v = []")
    case True
    then show ?thesis by (simp add: is_space_simps)
  next
    case False
    with assms(3) have "strip v \<noteq> []" by simp
    from strip_ends(2) [OF this] assms(3) False show ?thesis by simp
  qed
  have "strip (?x @ [10]) = ?x"
    using x_ne hd_x(1) last_x by (rule strip_trimmed) (simp add: is_space_simps)
  then have line: "strip (env_line (k, v)) = ?x" by (simp add: env_line_def)
  have not_comment: "\<not> startswith ?x [35]"
    using hd_x(2) by (cases k) (auto simp: startswith_def)
  have pos: "str_find ?x [61] = Some (length k)"
    using find_first_char [OF assms(1), of v] by simp
  then have has_eq: "contains ?x [61]" by (simp add: contains_def)
  from pos have "split1 ?x [61] = [k, v]" by (simp add: split1_def)
  with line not_comment has_eq assms(2,3) show ?thesis
    by (simp add: read_line_def Let_def del: append.simps)
qed

text \<open>Assignments to a \<open>dict\<close>.\<close>

lemma map_of_dict_set: "map_of (dict_set k v d) = (map_of d)(k \<mapsto> v)"
  by (induction k v d rule: dict_set.induct) (auto simp: fun_eq_iff)

lemma map_fst_dict_set:
  "map fst (dict_set k v d) = (if k \<in> set (map fst d) then map fst d else map fst d @ [k])"
  by (induction k v d rule: dict_set.induct) (auto split: if_splits)

lemma distinct_dict_set:
  "distinct (map fst d) \<Longrightarrow> distinct (map fst (dict_set k v d))"
  by (simp add: map_fst_dict_set del: set_map)

lemma set_dict_set_subset: "set (dict_set k v d) \<subseteq> insert (k, v) (set d)"
  by (induction k v d rule: dict_set.induct) (auto split: if_splits)

lemma dict_set_has: "(k, v) \<in> set (dict_set k v d)"
  by (induction k v d rule: dict_set.induct) auto

lemma dict_set_keeps: "(k', x) \<in> set d \<Longrightarrow> k' \<noteq> k \<Longrightarrow> (k', x) \<in> set (dict_set k v d)"
  by (induction k v d rule: dict_set.induct) auto

text \<open>What the reader of the dotfile takes from a line.\<close>

lemma find_char_not_before: "str_find s [c] = Some i \<Longrightarrow> c \<notin> set (take i s)"
proof (induction s arbitrary: i)
  case Nil
  then show ?case by simp
next
  case (Cons x xs)
  show ?case
  proof (cases "x = c")
    case True
    with Cons.prems show ?thesis by (simp add: startswith_def)
  next
    case False
    with Cons.prems obtain j where j: "str_find xs [c] = Some j" "i = Suc j"
      by (auto simp: startswith_def)
    from Cons.IH [OF j(1)] False j(2) show ?thesis by simp
  qed
qed

lemma read_line_cases:
  assumes "read_line raw d = Inr d'"
  shows "d' = d \<or> (\<exists>k v. d' = dict_set k v d \<and> proper_entry (k, v))"
proof (cases "strip raw \<noteq> [] \<and> \<not> startswith (strip raw) [35] \<and> contains (strip raw) [61]")
  case False
  with assms show ?thesis by (auto simp: read_line_def Let_def)
next
  case True
  let ?line = "strip raw"
  from True obtain i where i: "str_find ?line [61] = Some i"
    by (auto simp: contains_def)
  let ?key = "take i ?line" and ?val = "drop (i + 1) ?line"
  from i have sp: "split1 ?line [61] = [?key, ?val]" by (simp add: split1_def)
  with True assms have d': "d' = dict_set (strip ?key) (strip ?val) d"
    by (simp add: read_line_def Let_def)
  have "61 \<notin> set ?key" using i by (rule find_char_not_before)
  with set_strip [of ?key] have no_eq: "61 \<notin> set (strip ?key)" by blast
  have hd_ok: "strip ?key \<noteq> [] \<longrightarrow> hd (strip ?key) \<noteq> 35"
  proof
    assume ne: "strip ?key \<noteq> []"
    have "strip [] = ([] :: pystr)" by (simp add: strip_def)
    with ne have key_ne: "?key \<noteq> []" by metis
    then have "hd ?key = hd ?line" by (cases ?line; cases i) auto
    moreover from True have "\<not> is_space (hd ?line)" by (intro strip_ends(1)) simp
    ultimately have "hd (strip ?key) = hd ?line"
      using strip_keeps_hd(2) [OF key_ne] by simp
    moreover from True have "hd ?line \<noteq> 35"
      by (cases ?line) (auto simp: startswith_def)
    ultimately show "hd (strip ?key) \<noteq> 35" by simp
  qed
  from no_eq hd_ok have "proper_entry (strip ?key, strip ?val)"
    by (simp add: proper_entry_def strip_idem)
  with d' show ?thesis by blast
qed

lemma read_lines_entries:
  assumes "read_lines raws d = Inr d'"
  shows "(distinct (map fst d) \<longrightarrow> distinct (map fst d')) \<and>
         (\<forall>e \<in> set d'. e \<in> set d \<or> proper_entry e)"
  using assms
proof (induction raws arbitrary: d)
  case Nil
  then show ?case by simp
next
  case (Cons raw raws)
  from Cons.prems obtain d1 where one: "read_line raw d = Inr d1"
    and rest: "read_lines raws d1 = Inr d'"
    by (auto split: sum.splits)
  from read_line_cases [OF one]
  have step: "(distinct (map fst d) \<longrightarrow> distinct (map fst d1)) \<and>
              (\<forall>e \<in> set d1. e \<in> set d \<or> proper_entry e)"
  proof
    assume "d1 = d"
    then show ?thesis by simp
  next
    assume "\<exists>k v. d1 = dict_set k v d \<and> proper_entry (k, v)"
    then obtain k v where kv: "d1 = dict_set k v d" "proper_entry (k, v)" by blast
    with set_dict_set_subset [of k v d] show ?thesis
      by (auto simp: distinct_dict_set)
  qed
  with Cons.IH [OF rest] show ?case by blast
qed

lemma read_env_entries:
  assumes "read_env file = Inr old"
  shows "distinct (map fst old)" and "\<forall>e \<in> set old. proper_entry e"
  using assms read_lines_entries [of _ "[]" old]
  by (auto simp: read_env_def split: option.splits)

lemma proper_entry_reads_back:
  "proper_entry e \<Longrightarrow> read_line (env_line e) [] = Inr [e]"
  using entry_line_reads_back [of "fst e" "snd e"] by (simp add: proper_entry_def)

text \<open>The merge of the submitted values, and what it does to the environment.\<close>

lemma environ_set_ok: "environ_set k v env = Inr env' \<Longrightarrow> env' = env(k \<mapsto> v)"
  by (auto simp: environ_set_def split: if_splits)

lemma update_vars_merged:
  assumes "update_vars ev existing env = (Inr merged, env')"
  shows "(distinct (map fst existing) \<longrightarrow> distinct (map fst merged)) \<and>
         (\<forall>e \<in> set merged. (e \<in> set ev \<and> snd e \<noteq> []) \<or> e \<in> set existing) \<and>
         (\<forall>e \<in> set existing. (\<forall>v. (fst e, v) \<in> set ev \<longrightarrow> v = []) \<longrightarrow> e \<in> set merged)"
  using assms
proof (induction ev arbitrary: existing env)
  case Nil
  then show ?case by simp
next
  case (Cons p ev)
  obtain k v where p: "p = (k, v)" by (cases p)
  show ?case
  proof (cases "v = []")
    case True
    with Cons.prems p have "update_vars ev existing env = (Inr merged, env')" by simp
    from Cons.IH [OF this] True p show ?thesis by auto
  next
    case False
    with Cons.prems p obtain env1 where
      run: "update_vars ev (dict_set k v existing) env1 = (Inr merged, env')"
      by (auto split: sum.splits)
    note IH = Cons.IH [OF run]
    have d: "distinct (map fst existing) \<longrightarrow> distinct (map fst merged)"
      using IH by (simp add: distinct_dict_set)
    have from_where: "\<forall>e \<in> set merged. (e \<in> set (p # ev) \<and> snd e \<noteq> []) \<or> e \<in> set existing"
    proof
      fix e assume "e \<in> set merged"
      with IH have "(e \<in> set ev \<and> snd e \<noteq> []) \<or> e \<in> set (dict_set k v existing)" by blast
      with set_dict_set_subset [of k v existing] False p
      show "(e \<in> set (p # ev) \<and> snd e \<noteq> []) \<or> e \<in> set existing" by auto
    qed
    have kept: "\<forall>e \<in> set existing.
                  (\<forall>x. (fst e, x) \<in> set (p # ev) \<longrightarrow> x = []) \<longrightarrow> e \<in> set merged"
    proof (intro ballI impI)
      fix e assume e: "e \<in> set existing"
        and untouched: "\<forall>x. (fst e, x) \<in> set (p # ev) \<longrightarrow> x = []"
      from untouched p False have "fst e \<noteq> k" by auto
      with e have "e \<in> set (dict_set k v existing)"
        using dict_set_keeps [of "fst e" "snd e" existing k v] by simp
      moreover from untouched have "\<forall>x. (fst e, x) \<in> set ev \<longrightarrow> x = []" by simp
      ultimately show "e \<in> set merged" using IH by blast
    qed
    from d from_where kept show ?thesis by blast
  qed
qed

lemma update_vars_environ_other:
  assumes "update_vars ev existing env = (r, env')"
    and "\<forall>v. (K, v) \<in> set ev \<longrightarrow> v = []"
  shows "env' K = env K"
  using assms
proof (induction ev arbitrary: existing env)
  case Nil
  then show ?case by simp
next
  case (Cons p ev)
  obtain k v where p: "p = (k, v)" by (cases p)
  from Cons.prems(2) have rest: "\<forall>v. (K, v) \<in> set ev \<longrightarrow> v = []" by simp
  show ?case
  proof (cases "v = []")
    case True
    with Cons.prems(1) p have "update_vars ev existing env = (r, env')" by simp
    from Cons.IH [OF this rest] show ?thesis .
  next
    case False
    with Cons.prems(2) p have ne: "k \<noteq> K" by auto
    show ?thesis
    proof (cases "environ_set k v env")
      case (Inl e)
      with Cons.prems(1) p False show ?thesis by simp
    next
      case (Inr env1)
      with Cons.prems(1) p False
      have "update_vars ev (dict_set k v existing) env1 = (r, env')" by simp
      from Cons.IH [OF this rest] environ_set_ok [OF Inr] ne show ?thesis by simp
    qed
  qed
qed

lemma update_vars_environ_set:
  assumes "update_vars ev existing env = (Inr merged, env')"
    and "distinct (map fst ev)" and "(K, V) \<in> set ev" and "V \<noteq> []"
  shows "env' K = Some V"
  using assms
proof (induction ev arbitrary: existing env)
  case Nil
  then show ?case by simp
next
  case (Cons p ev)
  obtain k v where p: "p = (k, v)" by (cases p)
  show ?case
  proof (cases "(K, V) = p")
    case True
    with p Cons.prems(4) have kv: "k = K" "v = V" "v \<noteq> []" by simp_all
    with Cons.prems(1) p obtain env1 where set1: "environ_set K V env = Inr env1"
      and run: "update_vars ev (dict_set K V existing) env1 = (Inr merged, env')"
      by (auto split: sum.splits)
    from Cons.prems(2) p kv have "\<forall>x. (K, x) \<in> set ev \<longrightarrow> x = []"
      by (auto simp: image_iff)
    from update_vars_environ_other [OF run this] environ_set_ok [OF set1]
    show ?thesis by simp
  next
    case False
    with Cons.prems(3) have mem: "(K, V) \<in> set ev" by simp
    from Cons.prems(2) have dist: "distinct (map fst ev)" by simp
    show ?thesis
    proof (cases "v = []")
      case True
      with Cons.prems(1) p have "update_vars ev existing env = (Inr merged, env')" by simp
      from Cons.IH [OF this dist mem Cons.prems(4)] show ?thesis .
    next
      case False
      with Cons.prems(1) p obtain env1 where
        "update_vars ev (dict_set k v existing) env1 = (Inr merged, env')"
        by (auto split: sum.splits)
      from Cons.IH [OF this dist mem Cons.prems(4)] show ?thesis .
    qed
  qed
qed

lemma write_entries_ok:
  "write_entries entries written = (None, content) \<Longrightarrow>
   content = written @ concat (map env_line entries)"
proof (induction entries arbitrary: written)
  case Nil
  then show ?case by simp
next
  case (Cons e entries)
  from Cons.prems have "write_entries entries (written @ env_line e) = (None, content)"
    by (simp split: if_splits)
  from Cons.IH [OF this] show ?case by simp
qed

lemma save_env_vars_parts:
  assumes "save_env_vars env_vars w = (Inr msg, w1)"
  shows "\<exists>old merged.
           read_env (dotenv_file w) = Inr old \<and>
           update_vars env_vars old (environ w) = (Inr merged, environ w1) \<and>
           dotenv_file w1 = Some (concat (map env_line merged))"
proof -
  from assms obtain old where old: "read_env (dotenv_file w) = Inr old"
    by (auto simp: save_env_vars_def split: sum.splits)
  with assms obtain merged env where upd: "update_vars env_vars old (environ w) = (Inr merged, env)"
    by (auto simp: save_env_vars_def split: sum.splits prod.splits)
  with assms old obtain content where wr: "write_entries merged [] = (None, content)"
    and w1: "w1 = w\<lparr>environ := env, dotenv_file := Some content\<rparr>"
    by (auto simp: save_env_vars_def split: option.splits prod.splits)
  from write_entries_ok [OF wr] w1 old upd show ?thesis by simp
qed

text \<open>\<open>load_dotenv\<close> keeps what the environment has; \<open>load_env_vars\<close> reports it.\<close>

lemma load_dotenv_keeps:
  "env K = Some V \<Longrightarrow> snd (load_dotenv bindings env) K = Some V"
proof (induction bindings arbitrary: env)
  case Nil
  then show ?case by simp
next
  case (Cons b bindings)
  obtain k v where b: "b = (k, v)" by (cases b)
  show ?case
  proof (cases "env k \<noteq> None")
    case True
    with Cons b show ?thesis by simp
  next
    case False
    then have "k \<noteq> K" using Cons.prems by auto
    show ?thesis
    proof (cases "environ_set k v env")
      case (Inl e)
      with False b Cons.prems show ?thesis by simp
    next
      case (Inr env1)
      with environ_set_ok [OF Inr] \<open>k \<noteq> K\<close> Cons.prems have "env1 K = Some V" by simp
      then have "snd (load_dotenv bindings env1) K = Some V" by (rule Cons.IH)
      with False b Inr show ?thesis by simp
    qed
  qed
qed

lemma map_of_fold_names:
  "map_of (fold (\<lambda>var d. dict_set (name var) (f (name var)) d) vars d0) K =
     (if K \<in> name ` set vars then Some (f K) else map_of d0 K)"
  by (induction vars arbitrary: d0) (auto simp: map_of_dict_set)

lemma load_env_vars_value:
  assumes "load_env_vars bindings w = (Inr vars, w')"
    and "K \<in> name ` set (concat (map snd ENV_GROUPS))" and "environ w K = Some V"
  shows "map_of vars K = Some V"
proof -
  obtain r env where ld: "load_dotenv bindings (environ w) = (r, env)"
    by (cases "load_dotenv bindings (environ w)")
  with assms(1) have r: "r = None"
    and vars: "vars = fold (\<lambda>var d. dict_set (name var)
                                 (case env (name var) of None \<Rightarrow> [] | Some v \<Rightarrow> v) d)
                        (concat (map snd ENV_GROUPS)) []"
    by (auto simp: load_env_vars_def split: option.splits)
  from assms(3) have "snd (load_dotenv bindings (environ w)) K = Some V"
    by (rule load_dotenv_keeps)
  with ld have "env K = Some V" by simp
  with assms(2) show ?thesis
    unfolding vars
    by (simp only: map_of_fold_names [where f = "\<lambda>n. case env n of None \<Rightarrow> [] | Some v \<Rightarrow> v"])
       simp
qed

text \<open>
  Claim C7, as the code has it. Let \<open>save_env_vars\<close> return normally for a \<open>dict\<close> of
  submitted values. For every name \<open>K\<close> of \<open>ENV_GROUPS\<close> submitted with a non-empty value
  \<open>V\<close>, a \<open>load_env_vars\<close> that follows and returns gives \<open>V\<close> for \<open>K\<close>, whatever
  python-dotenv reads from the dotfile. For every key \<open>K\<close> submitted with an empty value
  for which the dotfile held the value \<open>old\<close>, the environment entry of \<open>K\<close> is as it was
  and the rewritten dotfile is made of one line per key, the one of \<open>K\<close> being \<open>K=old\<close>.
\<close>

theorem save_then_load_env_vars:
  assumes "distinct (map fst env_vars)"
    and "save_env_vars env_vars w = (Inr msg, w1)"
  shows "(\<forall>K V bindings vars w2.
            (K, V) \<in> set env_vars \<and> V \<noteq> [] \<and>
            K \<in> name ` set (concat (map snd ENV_GROUPS)) \<and>
            load_env_vars bindings w1 = (Inr vars, w2)
            \<longrightarrow> map_of vars K = Some V) \<and>
         (\<forall>K old entries.
            (K, []) \<in> set env_vars \<and>
            read_env (dotenv_file w) = Inr entries \<and> (K, old) \<in> set entries
            \<longrightarrow> environ w1 K = environ w K \<and>
                (\<exists>merged. dotenv_file w1 = Some (concat (map env_line merged)) \<and>
                           distinct (map fst merged) \<and> (K, old) \<in> set merged))"
proof -
  from save_env_vars_parts [OF assms(2)] obtain old merged where
    old: "read_env (dotenv_file w) = Inr old"
    and upd: "update_vars env_vars old (environ w) = (Inr merged, environ w1)"
    and written: "dotenv_file w1 = Some (concat (map env_line merged))"
    by blast
  have part1: "map_of vars K = Some V"
    if "(K, V) \<in> set env_vars" "V \<noteq> []" "K \<in> name ` set (concat (map snd ENV_GROUPS))"
      "load_env_vars bindings w1 = (Inr vars, w2)" for K V bindings vars w2
  proof -
    from update_vars_environ_set [OF upd assms(1) that(1,2)] have "environ w1 K = Some V" .
    with that(4,3) show ?thesis by (rule load_env_vars_value)
  qed
  have part2: "environ w1 K = environ w K \<and>
                (\<exists>merged. dotenv_file w1 = Some (concat (map env_line merged)) \<and>
                           distinct (map fst merged) \<and> (K, old') \<in> set merged)"
    if "(K, []) \<in> set env_vars" "read_env (dotenv_file w) = Inr entries" "(K, old') \<in> set entries"
    for K old' entries
  proof -
    from that(2) old have entries: "entries = old" by simp
    have untouched: "\<forall>v. (K, v) \<in> set env_vars \<longrightarrow> v = []"
    proof (intro allI impI)
      fix v assume "(K, v) \<in> set env_vars"
      with that(1) assms(1) show "v = []" by (meson eq_key_imp_eq_value)
    qed
    from update_vars_environ_other [OF upd untouched] have env: "environ w1 K = environ w K" .
    from update_vars_merged [OF upd] read_env_entries(1) [OF old]
    have "distinct (map fst merged)"
      and "\<forall>e \<in> set old. (\<forall>v. (fst e, v) \<in> set env_vars \<longrightarrow> v = []) \<longrightarrow> e \<in> set merged"
      by blast+
    with that(3) entries untouched have "distinct (map fst merged)" "(K, old') \<in> set merged"
      by auto
    with env written show ?thesis by blast
  qed
  from part1 part2 show ?thesis by blast
qed

text \<open>The definitions that evaluating a save or a load unfolds.\<close>

lemmas eval_env = save_env_vars_def load_env_vars_def read_env_def read_line_def
  environ_set_def env_encodable_def utf8_encodable_def env_line_def ENV_GROUPS_def
  initial_world_def SAVED_def

theorem save_then_load_env_vars_witness:
  "map_sum id (\<lambda>vars. map_of vars (ascii ''QWEN_API_KEY''))
     (fst (load_env_vars []
        (snd (save_env_vars
                [(ascii ''OPENAI_API_KEY'', []), (ascii ''QWEN_API_KEY'', ascii ''q1'')]
                (initial_world\<lparr>dotenv_file :=
                   Some (ascii ''# keys'' @ [10] @ ascii ''OPENAI_API_KEY = old'' @ [10])\<rparr>)))))
     = Inr (Some (ascii ''q1'')) \<and>
   dotenv_file
     (snd (save_env_vars
             [(ascii ''OPENAI_API_KEY'', []), (ascii ''QWEN_API_KEY'', ascii ''q1'')]
             (initial_world\<lparr>dotenv_file :=
                Some (ascii ''# keys'' @ [10] @ ascii ''OPENAI_API_KEY = old'' @ [10])\<rparr>)))
     = Some (ascii ''OPENAI_API_KEY=old'' @ [10] @ ascii ''QWEN_API_KEY=q1'' @ [10]) \<and>
   environ
     (snd (save_env_vars
             [(ascii ''OPENAI_API_KEY'', []), (ascii ''QWEN_API_KEY'', ascii ''q1'')]
             (initial_world\<lparr>dotenv_file :=
                Some (ascii ''# keys'' @ [10] @ ascii ''OPENAI_API_KEY = old'' @ [10])\<rparr>)))
     (ascii ''OPENAI_API_KEY'') = None"
proof -
  let ?ev = "[(ascii ''OPENAI_API_KEY'', []), (ascii ''QWEN_API_KEY'', ascii ''q1'')]"
  let ?w0 = "initial_world\<lparr>dotenv_file :=
                Some (ascii ''# keys'' @ [10] @ ascii ''OPENAI_API_KEY = old'' @ [10])\<rparr>"
  let ?w1 = "snd (save_env_vars ?ev ?w0)"
  have d: "distinct (map fst ?ev)" by (simp add: ascii_def)
  have old: "read_env (dotenv_file ?w0) = Inr [(ascii ''OPENAI_API_KEY'', ascii ''old'')]"
    by (simp add: eval_env eval_text)
  have "fst (save_env_vars ?ev ?w0) = Inr SAVED"
    by (simp add: eval_env eval_text)
  then have s: "save_env_vars ?ev ?w0 = (Inr SAVED, ?w1)"
    by (metis prod.collapse)
  have written: "dotenv_file ?w1
      = Some (ascii ''OPENAI_API_KEY=old'' @ [10] @ ascii ''QWEN_API_KEY=q1'' @ [10])"
    by (simp add: eval_env eval_text)
  obtain vars where lf: "fst (load_env_vars [] ?w1) = Inr vars"
    by (simp add: load_env_vars_def)
  then have l: "load_env_vars [] ?w1 = (Inr vars, snd (load_env_vars [] ?w1))"
    by (metis prod.collapse)
  have known: "ascii ''QWEN_API_KEY'' \<in> name ` set (concat (map snd ENV_GROUPS))"
    by (simp add: ENV_GROUPS_def)
  note T = save_then_load_env_vars [OF d s]
  have m1: "(ascii ''QWEN_API_KEY'', ascii ''q1'') \<in> set ?ev" by simp
  have ne: "ascii ''q1'' \<noteq> []" by (simp add: ascii_def)
  from T [THEN conjunct1, rule_format, of "ascii ''QWEN_API_KEY''" "ascii ''q1''" "[]" vars
          "snd (load_env_vars [] ?w1)"] m1 ne known l
  have "map_of vars (ascii ''QWEN_API_KEY'') = Some (ascii ''q1'')"
    by blast
  with lf have one: "map_sum id (\<lambda>vars. map_of vars (ascii ''QWEN_API_KEY''))
     (fst (load_env_vars [] ?w1)) = Inr (Some (ascii ''q1''))"
    by simp
  have m2: "(ascii ''OPENAI_API_KEY'', []) \<in> set ?ev" by simp
  have m3: "(ascii ''OPENAI_API_KEY'', ascii ''old'')
              \<in> set [(ascii ''OPENAI_API_KEY'', ascii ''old'')]" by simp
  from T [THEN conjunct2, rule_format, of "ascii ''OPENAI_API_KEY''"
          "[(ascii ''OPENAI_API_KEY'', ascii ''old'')]" "ascii ''old''"] m2 old m3
  have "environ ?w1 (ascii ''OPENAI_API_KEY'') = environ ?w0 (ascii ''OPENAI_API_KEY'')"
    by blast
  then have three: "environ ?w1 (ascii ''OPENAI_API_KEY'') = None"
    by (simp add: initial_world_def)
  from one written three show ?thesis by (intro conjI)
qed

text \<open>
  The claim as it was stated speaks of every key. \<open>load_env_vars\<close> reports the nine
  names of \<open>ENV_GROUPS\<close> and no other: a value saved under another key is written to the
  dotfile and is not among the values that are loaded, even when python-dotenv reads the
  line back.
\<close>

theorem load_env_vars_other_key_counterexample:
  "fst (save_env_vars [(ascii ''MY_KEY'', ascii ''v'')] initial_world) = Inr SAVED \<and>
   dotenv_file (snd (save_env_vars [(ascii ''MY_KEY'', ascii ''v'')] initial_world))
     = Some (ascii ''MY_KEY=v'' @ [10]) \<and>
   fst (load_env_vars [(ascii ''MY_KEY'', ascii ''v'')]
          (snd (save_env_vars [(ascii ''MY_KEY'', ascii ''v'')] initial_world)))
     = Inr [(ascii ''OPENAI_API_KEY'', []), (ascii ''OPENAI_API_BASE_URL'', []),
            (ascii ''QWEN_API_KEY'', []), (ascii ''DEEPSEEK_API_KEY'', []),
            (ascii ''GOOGLE_API_KEY'', []), (ascii ''SEARCH_ENGINE_ID'', []),
            (ascii ''HF_TOKEN'', []), (ascii ''CHUNKR_API_KEY'', []),
            (ascii ''FIRECRAWL_API_KEY'', [])]"
  by (simp add: eval_env eval_text)

text \<open>
  Claim C10. When \<open>save_env_vars\<close> returns, the dotfile consists of one line
  \<open>key=value\<close> per key and of nothing else. Each of these lines is a submitted pair with
  a non-empty value, or an entry that the file had before and that no submitted value
  replaces; such an entry is written as a line that the reader takes as that very entry,
  so it is neither blank nor a comment. Every entry of the old file whose key has no
  non-empty submitted value is among the lines. Comment lines, blank lines and lines
  without \<open>=\<close> are no entries, so nothing of them is written.
\<close>

theorem save_env_vars_rewrites:
  assumes "save_env_vars env_vars w = (Inr msg, w1)"
  shows "\<exists>old merged.
           read_env (dotenv_file w) = Inr old \<and>
           dotenv_file w1 = Some (concat (map env_line merged)) \<and>
           distinct (map fst merged) \<and>
           (\<forall>e \<in> set merged.
              (e \<in> set env_vars \<and> snd e \<noteq> []) \<or>
              (e \<in> set old \<and> read_line (env_line e) [] = Inr [e])) \<and>
           (\<forall>e \<in> set old.
              (\<forall>v. (fst e, v) \<in> set env_vars \<longrightarrow> v = []) \<longrightarrow> e \<in> set merged)"
proof -
  from save_env_vars_parts [OF assms] obtain old merged where
    old: "read_env (dotenv_file w) = Inr old"
    and upd: "update_vars env_vars old (environ w) = (Inr merged, environ w1)"
    and written: "dotenv_file w1 = Some (concat (map env_line merged))"
    by blast
  note entries = read_env_entries [OF old]
  note m = update_vars_merged [OF upd]
  from m entries(1) have d: "distinct (map fst merged)" by blast
  have origin: "\<forall>e \<in> set merged.
              (e \<in> set env_vars \<and> snd e \<noteq> []) \<or>
              (e \<in> set old \<and> read_line (env_line e) [] = Inr [e])"
  proof
    fix e assume "e \<in> set merged"
    with m have "(e \<in> set env_vars \<and> snd e \<noteq> []) \<or> e \<in> set old" by blast
    with entries(2) proper_entry_reads_back
    show "(e \<in> set env_vars \<and> snd e \<noteq> []) \<or>
          (e \<in> set old \<and> read_line (env_line e) [] = Inr [e])" by blast
  qed
  from m have kept: "\<forall>e \<in> set old.
              (\<forall>v. (fst e, v) \<in> set env_vars \<longrightarrow> v = []) \<longrightarrow> e \<in> set merged" by blast
  from old written d origin kept show ?thesis by blast
qed

theorem save_env_vars_rewrites_witness:
  "dotenv_file
     (snd (save_env_vars
             [(ascii ''HF_TOKEN'', ascii ''new''), (ascii ''OPENAI_API_KEY'', [])]
             (initial_world\<lparr>dotenv_file :=
                Some (ascii ''# keys'' @ [10, 10] @ ascii ''OPENAI_API_KEY = old'' @ [10]
                      @ ascii ''noise'' @ [10] @ ascii ''HF_TOKEN=t'' @ [10])\<rparr>)))
     = Some (ascii ''OPENAI_API_KEY=old'' @ [10] @ ascii ''HF_TOKEN=new'' @ [10]) \<and>
   (\<exists>old merged.
      read_env (dotenv_file
                 (initial_world\<lparr>dotenv_file :=
                    Some (ascii ''# keys'' @ [10, 10] @ ascii ''OPENAI_API_KEY = old'' @ [10]
                          @ ascii ''noise'' @ [10] @ ascii ''HF_TOKEN=t'' @ [10])\<rparr>))
        = Inr old \<and>
      dotenv_file
        (snd (save_env_vars
                [(ascii ''HF_TOKEN'', ascii ''new''), (ascii ''OPENAI_API_KEY'', [])]
                (initial_world\<lparr>dotenv_file :=
                   Some (ascii ''# keys'' @ [10, 10] @ ascii ''OPENAI_API_KEY = old'' @ [10]
                         @ ascii ''noise'' @ [10] @ ascii ''HF_TOKEN=t'' @ [10])\<rparr>)))
        = Some (concat (map env_line merged)) \<and>
      distinct (map fst merged) \<and>
      (\<forall>e \<in> set merged.
         (e \<in> set [(ascii ''HF_TOKEN'', ascii ''new''), (ascii ''OPENAI_API_KEY'', [])]
            \<and> snd e \<noteq> []) \<or>
         (e \<in> set old \<and> read_line (env_line e) [] = Inr [e])) \<and>
      (\<forall>e \<in> set old.
         (\<forall>v. (fst e, v) \<in> set [(ascii ''HF_TOKEN'', ascii ''new''), (ascii ''OPENAI_API_KEY'', [])]
            \<longrightarrow> v = []) \<longrightarrow> e \<in> set merged))"
proof -
  let ?ev = "[(ascii ''HF_TOKEN'', ascii ''new''), (ascii ''OPENAI_API_KEY'', [])]"
  let ?w0 = "initial_world\<lparr>dotenv_file :=
                Some (ascii ''# keys'' @ [10, 10] @ ascii ''OPENAI_API_KEY = old'' @ [10]
                      @ ascii ''noise'' @ [10] @ ascii ''HF_TOKEN=t'' @ [10])\<rparr>"
  have "fst (save_env_vars ?ev ?w0) = Inr SAVED"
    by (simp add: eval_env eval_text)
  then have s: "save_env_vars ?ev ?w0 = (Inr SAVED, snd (save_env_vars ?ev ?w0))"
    by (metis prod.collapse)
  have written: "dotenv_file (snd (save_env_vars ?ev ?w0))
      = Some (ascii ''OPENAI_API_KEY=old'' @ [10] @ ascii ''HF_TOKEN=new'' @ [10])"
    by (simp add: eval_env eval_text)
  from written save_env_vars_rewrites [OF s] show ?thesis by (rule conjI)
qed

section \<open>Reading the rewritten dotfile back\<close>

text \<open>
  Lines without line breaks in them are read from a file as they were written, and the
  lines of any file have no line break before their end.
\<close>

lemma file_lines_one:
  assumes "no_breaks l"
  shows "file_lines cur False (l @ 10 # rest) = (cur @ l @ [10]) # file_lines [] False rest"
  using assms
proof (induction l arbitrary: cur)
  case Nil
  then show ?case by simp
next
  case (Cons c l)
  from Cons.prems have c: "c \<noteq> 10" "c \<noteq> 13" and l: "no_breaks l"
    by (auto simp: no_breaks_def)
  from Cons.IH [OF l, of "cur @ [c]"] c show ?case by simp
qed

lemma file_lines_entries:
  assumes "\<forall>e \<in> set es. no_breaks (fst e) \<and> no_breaks (snd e)"
  shows "file_lines [] False (concat (map env_line es)) = map env_line es"
  using assms
proof (induction es)
  case Nil
  then show ?case by simp
next
  case (Cons e es)
  from Cons.prems have nb: "no_breaks (fst e @ [61] @ snd e)"
    by (auto simp: no_breaks_def)
  from Cons have IH: "file_lines [] False (concat (map env_line es)) = map env_line es"
    by simp
  have "concat (map env_line (e # es))
          = (fst e @ [61] @ snd e) @ 10 # concat (map env_line es)"
    by (simp add: env_line_def [of e])
  then have "file_lines [] False (concat (map env_line (e # es)))
          = ([] @ (fst e @ [61] @ snd e) @ [10]) # file_lines [] False (concat (map env_line es))"
    by (simp only: file_lines_one [OF nb])
  also have "\<dots> = env_line e # map env_line es"
    by (simp add: IH env_line_def [of e])
  finally show ?case by simp
qed

lemma file_lines_no_breaks:
  assumes "no_breaks cur"
  shows "\<forall>l \<in> set (file_lines cur after_cr content).
           \<exists>b. no_breaks b \<and> (l = b \<or> l = b @ [10])"
  using assms
proof (induction content arbitrary: cur after_cr)
  case Nil
  then show ?case by auto
next
  case (Cons c content)
  have empty: "no_breaks []" by (simp add: no_breaks_def)
  show ?case
  proof (cases "c = 10")
    case True
    show ?thesis
    proof (cases after_cr)
      case True
      with \<open>c = 10\<close> Cons.IH [OF Cons.prems, of False] show ?thesis by simp
    next
      case False
      with \<open>c = 10\<close> Cons.IH [OF empty, of False] Cons.prems show ?thesis by auto
    qed
  next
    case False
    show ?thesis
    proof (cases "c = 13")
      case True
      with False Cons.IH [OF empty, of True] Cons.prems show ?thesis by auto
    next
      case c13: False
      with False Cons.prems have "no_breaks (cur @ [c])" by (simp add: no_breaks_def)
      from Cons.IH [OF this, of False] False c13 show ?thesis by simp
    qed
  qed
qed

lemma strip_trailing_space:
  assumes "\<forall>c \<in> set w. is_space c"
  shows "strip (s @ w) = strip s"
proof (cases "\<forall>c \<in> set s. is_space c")
  case True
  with assms have "\<forall>c \<in> set (s @ w). is_space c" by auto
  then have "strip (s @ w) = []" by (simp only: strip_empty_iff)
  moreover from True have "strip s = []" by (simp only: strip_empty_iff)
  ultimately show ?thesis by simp
next
  case False
  then obtain x where "x \<in> set s" "\<not> is_space x" by blast
  then have front: "dropWhile is_space (s @ w) = dropWhile is_space s @ w"
    by (rule dropWhile_append1)
  have "dropWhile is_space (rev w @ rev (dropWhile is_space s))
          = dropWhile is_space (rev (dropWhile is_space s))"
    using assms by (intro dropWhile_append2) simp
  then have "dropWhile is_space (rev (dropWhile is_space s @ w))
          = dropWhile is_space (rev (dropWhile is_space s))"
    by (simp only: rev_append)
  with front show ?thesis by (simp only: strip_def)
qed

lemma strip_no_breaks:
  assumes "no_breaks b" and "l = b \<or> l = b @ [10]"
  shows "no_breaks (strip l)"
proof -
  have "strip (b @ [10]) = strip b"
    by (rule strip_trailing_space) (simp add: is_space_def)
  with assms(2) have "strip l = strip b" by auto
  with set_strip [of b] assms(1) show ?thesis by (auto simp: no_breaks_def)
qed

text \<open>Proper entries with distinct keys, written line by line, are read as themselves.\<close>

lemma entry_line_reads:
  assumes "proper_entry e"
  shows "read_line (env_line e) d = Inr (dict_set (fst e) (snd e) d)"
proof -
  have "read_line (env_line e) [] = Inr [e]" using assms by (rule proper_entry_reads_back)
  then have "read_line (env_line e) [] = Inr (dict_set (fst e) (snd e) [])" by simp
  then show ?thesis
    by (auto simp: read_line_def Let_def split: if_splits list.splits)
qed

lemma dict_set_new: "k \<notin> fst ` set d \<Longrightarrow> dict_set k v d = d @ [(k, v)]"
  by (induction k v d rule: dict_set.induct) auto

lemma read_lines_written:
  assumes "\<forall>e \<in> set es. proper_entry e" and "distinct (map fst es)"
    and "fst ` set es \<inter> fst ` set d = {}"
  shows "read_lines (map env_line es) d = Inr (d @ es)"
  using assms
proof (induction es arbitrary: d)
  case Nil
  then show ?case by simp
next
  case (Cons e es)
  from Cons.prems have e: "proper_entry e" and new: "fst e \<notin> fst ` set d" by auto
  from entry_line_reads [OF e, of d] dict_set_new [OF new, of "snd e"]
  have one: "read_line (env_line e) d = Inr (d @ [e])" by simp
  from Cons.prems have "\<forall>e \<in> set es. proper_entry e" "distinct (map fst es)"
    "fst ` set es \<inter> fst ` set (d @ [e]) = {}"
    by auto
  from Cons.IH [OF this] one show ?case by simp
qed

lemma read_env_written:
  assumes "\<forall>e \<in> set es. proper_entry e \<and> no_breaks (fst e) \<and> no_breaks (snd e)"
    and "distinct (map fst es)"
  shows "read_env (Some (concat (map env_line es))) = Inr es"
proof -
  from assms(1) have "file_lines [] False (concat (map env_line es)) = map env_line es"
    by (intro file_lines_entries) simp
  moreover from assms have "read_lines (map env_line es) [] = Inr ([] @ es)"
    by (intro read_lines_written) simp_all
  ultimately show ?thesis by (simp add: read_env_def)
qed

text \<open>The entries read from a file have no line breaks in them.\<close>

lemma read_line_no_breaks:
  assumes "read_line raw d = Inr d'" and "no_breaks (strip raw)"
    and "\<forall>e \<in> set d. no_breaks (fst e) \<and> no_breaks (snd e)"
  shows "\<forall>e \<in> set d'. no_breaks (fst e) \<and> no_breaks (snd e)"
proof (cases "strip raw \<noteq> [] \<and> \<not> startswith (strip raw) [35] \<and> contains (strip raw) [61]")
  case False
  with assms show ?thesis by (auto simp: read_line_def Let_def)
next
  case True
  let ?line = "strip raw"
  from True obtain i where i: "str_find ?line [61] = Some i"
    by (auto simp: contains_def)
  let ?key = "take i ?line" and ?val = "drop (i + 1) ?line"
  from i have "split1 ?line [61] = [?key, ?val]" by (simp add: split1_def)
  with True assms(1) have d': "d' = dict_set (strip ?key) (strip ?val) d"
    by (simp add: read_line_def Let_def)
  have "set (strip ?key) \<subseteq> set ?line" "set (strip ?val) \<subseteq> set ?line"
    using set_strip [of ?key] set_strip [of ?val]
    by (auto dest: in_set_takeD in_set_dropD)
  with assms(2) have "no_breaks (strip ?key)" "no_breaks (strip ?val)"
    by (auto simp: no_breaks_def)
  with d' assms(3) set_dict_set_subset [of "strip ?key" "strip ?val" d] show ?thesis
    by auto
qed

lemma read_lines_no_breaks:
  assumes "read_lines raws d = Inr d'" and "\<forall>raw \<in> set raws. no_breaks (strip raw)"
    and "\<forall>e \<in> set d. no_breaks (fst e) \<and> no_breaks (snd e)"
  shows "\<forall>e \<in> set d'. no_breaks (fst e) \<and> no_breaks (snd e)"
  using assms
proof (induction raws arbitrary: d)
  case Nil
  then show ?case by simp
next
  case (Cons raw raws)
  from Cons.prems(1) obtain d1 where one: "read_line raw d = Inr d1"
    and rest: "read_lines raws d1 = Inr d'"
    by (auto split: sum.splits)
  from Cons.prems(2) have raw: "no_breaks (strip raw)"
    and raws: "\<forall>raw \<in> set raws. no_breaks (strip raw)" by simp_all
  from read_line_no_breaks [OF one raw Cons.prems(3)]
  have "\<forall>e \<in> set d1. no_breaks (fst e) \<and> no_breaks (snd e)" .
  from Cons.IH [OF rest raws this] show ?case .
qed

lemma read_env_no_breaks:
  assumes "read_env dotfile = Inr old"
  shows "\<forall>e \<in> set old. no_breaks (fst e) \<and> no_breaks (snd e)"
proof (cases dotfile)
  case None
  with assms show ?thesis by (simp add: read_env_def)
next
  case (Some content)
  have "no_breaks []" by (simp add: no_breaks_def)
  from file_lines_no_breaks [OF this, of False content]
  have "\<forall>raw \<in> set (file_lines [] False content). no_breaks (strip raw)"
    using strip_no_breaks by blast
  moreover from assms Some have "read_lines (file_lines [] False content) [] = Inr old"
    by (simp add: read_env_def)
  ultimately show ?thesis
    using read_lines_no_breaks [of "file_lines [] False content" "[]" old] by simp
qed

lemma update_vars_submitted:
  assumes "update_vars ev existing env = (Inr merged, env')"
    and "distinct (map fst ev)" and "(K, V) \<in> set ev" and "V \<noteq> []"
  shows "(K, V) \<in> set merged"
  using assms
proof (induction ev arbitrary: existing env)
  case Nil
  then show ?case by simp
next
  case (Cons p ev)
  obtain k v where p: "p = (k, v)" by (cases p)
  from Cons.prems(2) have dist: "distinct (map fst ev)" by simp
  show ?case
  proof (cases "(K, V) = p")
    case True
    with p Cons.prems(4) have kv: "k = K" "v = V" "v \<noteq> []" by simp_all
    with Cons.prems(1) p obtain env1 where
      run: "update_vars ev (dict_set K V existing) env1 = (Inr merged, env')"
      by (auto split: sum.splits)
    from Cons.prems(2) p kv have "\<forall>x. (K, x) \<in> set ev \<longrightarrow> x = []"
      by (auto simp: image_iff)
    with update_vars_merged [OF run] dict_set_has [of K V existing] show ?thesis
      by auto
  next
    case False
    with Cons.prems(3) have mem: "(K, V) \<in> set ev" by simp
    show ?thesis
    proof (cases "v = []")
      case True
      with Cons.prems(1) p have "update_vars ev existing env = (Inr merged, env')" by simp
      from Cons.IH [OF this dist mem Cons.prems(4)] show ?thesis .
    next
      case False
      with Cons.prems(1) p obtain env1 where
        "update_vars ev (dict_set k v existing) env1 = (Inr merged, env')"
        by (auto split: sum.splits)
      from Cons.IH [OF this dist mem Cons.prems(4)] show ?thesis .
    qed
  qed
qed

text \<open>
  When the submitted keys and non-empty values are proper single-line text, the reader of
  \<open>save_env_vars\<close> finds in the rewritten dotfile exactly the merged entries: every
  submitted pair with a non-empty value and every old entry that none of them replaces.
  (A value with a line break in it would be read back as several lines.)
\<close>

lemma save_env_vars_reads_back:
  assumes "save_env_vars env_vars w = (Inr msg, w1)"
    and "distinct (map fst env_vars)"
    and "\<forall>e \<in> set env_vars. snd e \<noteq> [] \<longrightarrow>
           proper_entry e \<and> no_breaks (fst e) \<and> no_breaks (snd e)"
  shows "\<exists>old merged.
           read_env (dotenv_file w) = Inr old \<and>
           read_env (dotenv_file w1) = Inr merged \<and>
           (\<forall>e \<in> set env_vars. snd e \<noteq> [] \<longrightarrow> e \<in> set merged) \<and>
           (\<forall>e \<in> set old. (\<forall>v. (fst e, v) \<in> set env_vars \<longrightarrow> v = []) \<longrightarrow> e \<in> set merged)"
proof -
  from save_env_vars_parts [OF assms(1)] obtain old merged where
    old: "read_env (dotenv_file w) = Inr old"
    and upd: "update_vars env_vars old (environ w) = (Inr merged, environ w1)"
    and written: "dotenv_file w1 = Some (concat (map env_line merged))"
    by blast
  note m = update_vars_merged [OF upd]
  from m read_env_entries(1) [OF old] have d: "distinct (map fst merged)" by blast
  have "\<forall>e \<in> set merged. proper_entry e \<and> no_breaks (fst e) \<and> no_breaks (snd e)"
  proof
    fix e assume "e \<in> set merged"
    with m have "(e \<in> set env_vars \<and> snd e \<noteq> []) \<or> e \<in> set old" by blast
    with assms(3) read_env_entries(2) [OF old] read_env_no_breaks [OF old]
    show "proper_entry e \<and> no_breaks (fst e) \<and> no_breaks (snd e)" by blast
  qed
  from read_env_written [OF this d] written
  have reread: "read_env (dotenv_file w1) = Inr merged" by simp
  have sub: "\<forall>e \<in> set env_vars. snd e \<noteq> [] \<longrightarrow> e \<in> set merged"
  proof (intro ballI impI)
    fix e assume "e \<in> set env_vars" "snd e \<noteq> []"
    with update_vars_submitted [OF upd assms(2), of "fst e" "snd e"]
    show "e \<in> set merged" by simp
  qed
  from m have "\<forall>e \<in> set old. (\<forall>v. (fst e, v) \<in> set env_vars \<longrightarrow> v = []) \<longrightarrow> e \<in> set merged"
    by blast
  with old reread sub show ?thesis by blast
qed

section \<open>When \<open>save_env_vars\<close> returns\<close>

text \<open>
  Reading the dotfile never raises. The save returns its message whenever every submitted
  pair with a non-empty value has a non-empty name without \<open>=\<close> and consists of code
  points other than the null character and the surrogates, the dotfile being text that
  was decoded from UTF-8.
\<close>

lemma read_line_total: "\<exists>d'. read_line raw d = Inr d'"
proof (cases "strip raw \<noteq> [] \<and> \<not> startswith (strip raw) [35] \<and> contains (strip raw) [61]")
  case False
  then show ?thesis by (auto simp: read_line_def Let_def)
next
  case True
  then obtain i where "str_find (strip raw) [61] = Some i"
    by (auto simp: contains_def)
  with True show ?thesis by (simp add: read_line_def Let_def split1_def)
qed

lemma read_lines_total: "\<exists>d'. read_lines raws d = Inr d'"
proof (induction raws arbitrary: d)
  case Nil
  then show ?case by simp
next
  case (Cons raw raws)
  obtain d1 where "read_line raw d = Inr d1" using read_line_total by blast
  with Cons.IH [of d1] show ?case by simp
qed

lemma read_env_total: "\<exists>old. read_env dotfile = Inr old"
  using read_lines_total by (cases dotfile) (simp_all add: read_env_def)

lemma file_lines_chars:
  "\<forall>l \<in> set (file_lines cur after_cr content). set l \<subseteq> insert 10 (set cur \<union> set content)"
proof (induction content arbitrary: cur after_cr)
  case Nil
  then show ?case by auto
next
  case (Cons c content)
  show ?case
  proof (cases "c = 10")
    case True
    show ?thesis
    proof (cases after_cr)
      case True
      with \<open>c = 10\<close> Cons [of cur False] show ?thesis by auto
    next
      case False
      with \<open>c = 10\<close> Cons [of "[]" False] show ?thesis by auto
    qed
  next
    case False
    show ?thesis
    proof (cases "c = 13")
      case True
      with False Cons [of "[]" True] show ?thesis by auto
    next
      case c13: False
      with False Cons [of "cur @ [c]" False] show ?thesis by auto
    qed
  qed
qed

lemma read_line_chars:
  assumes "read_line raw d = Inr d'" and "e \<in> set d'"
  shows "e \<in> set d \<or> (set (fst e) \<subseteq> set raw \<and> set (snd e) \<subseteq> set raw)"
proof (cases "strip raw \<noteq> [] \<and> \<not> startswith (strip raw) [35] \<and> contains (strip raw) [61]")
  case False
  with assms show ?thesis by (auto simp: read_line_def Let_def)
next
  case True
  let ?line = "strip raw"
  from True obtain i where i: "str_find ?line [61] = Some i"
    by (auto simp: contains_def)
  let ?key = "take i ?line" and ?val = "drop (i + 1) ?line"
  from i have "split1 ?line [61] = [?key, ?val]" by (simp add: split1_def)
  with True assms(1) have d': "d' = dict_set (strip ?key) (strip ?val) d"
    by (simp add: read_line_def Let_def)
  have "set (strip ?key) \<subseteq> set raw" "set (strip ?val) \<subseteq> set raw"
    using set_strip [of ?key] set_strip [of ?val] set_strip [of raw]
    by (auto dest: in_set_takeD in_set_dropD)
  then have new: "set (fst (strip ?key, strip ?val)) \<subseteq> set raw"
    "set (snd (strip ?key, strip ?val)) \<subseteq> set raw" by simp_all
  from d' assms(2) set_dict_set_subset [of "strip ?key" "strip ?val" d]
  have "e = (strip ?key, strip ?val) \<or> e \<in> set d" by blast
  with new show ?thesis by metis
qed

lemma read_lines_chars:
  assumes "read_lines raws d = Inr d'" and "e \<in> set d'"
  shows "e \<in> set d \<or>
         (\<exists>raw \<in> set raws. set (fst e) \<subseteq> set raw \<and> set (snd e) \<subseteq> set raw)"
  using assms
proof (induction raws arbitrary: d)
  case Nil
  then show ?case by simp
next
  case (Cons raw raws)
  from Cons.prems(1) obtain d1 where one: "read_line raw d = Inr d1"
    and rest: "read_lines raws d1 = Inr d'"
    by (auto split: sum.splits)
  from Cons.IH [OF rest Cons.prems(2)] show ?case
  proof
    assume "e \<in> set d1"
    from read_line_chars [OF one this] show ?thesis by auto
  next
    assume "\<exists>raw \<in> set raws. set (fst e) \<subseteq> set raw \<and> set (snd e) \<subseteq> set raw"
    then show ?thesis by auto
  qed
qed

lemma read_env_encodable:
  assumes "read_env (Some content) = Inr old" and "utf8_encodable content" and "e \<in> set old"
  shows "utf8_encodable (env_line e)"
proof -
  from assms(1) have "read_lines (file_lines [] False content) [] = Inr old"
    by (simp add: read_env_def)
  from read_lines_chars [OF this assms(3)]
  obtain raw where raw: "raw \<in> set (file_lines [] False content)"
    and sub: "set (fst e) \<subseteq> set raw" "set (snd e) \<subseteq> set raw"
    by auto
  from raw file_lines_chars [of "[]" False content]
  have "set raw \<subseteq> insert 10 (set content)" by auto
  with sub assms(2) show ?thesis
    by (auto simp: utf8_encodable_def env_line_def)
qed

lemma encodable_parts:
  assumes "0 \<notin> set (k @ v)" and "utf8_encodable (k @ v)"
  shows "env_encodable k" and "env_encodable v" and "utf8_encodable (env_line (k, v))"
  using assms by (auto simp: env_encodable_def utf8_encodable_def env_line_def)

lemma update_vars_returns:
  assumes "\<forall>e \<in> set ev. snd e \<noteq> [] \<longrightarrow>
             fst e \<noteq> [] \<and> 61 \<notin> set (fst e) \<and> env_encodable (fst e) \<and> env_encodable (snd e)"
  shows "\<exists>merged env'. update_vars ev existing env = (Inr merged, env')"
  using assms
proof (induction ev arbitrary: existing env)
  case Nil
  then show ?case by simp
next
  case (Cons p ev)
  obtain k v where p: "p = (k, v)" by (cases p)
  from Cons.prems have rest: "\<forall>e \<in> set ev. snd e \<noteq> [] \<longrightarrow>
             fst e \<noteq> [] \<and> 61 \<notin> set (fst e) \<and> env_encodable (fst e) \<and> env_encodable (snd e)"
    by simp
  show ?case
  proof (cases "v = []")
    case True
    with p Cons.IH [OF rest, of existing env] show ?thesis by simp
  next
    case False
    with Cons.prems p have set1: "environ_set k v env = Inr (env(k \<mapsto> v))"
      by (simp add: environ_set_def)
    from Cons.IH [OF rest, of "dict_set k v existing" "env(k \<mapsto> v)"]
    obtain merged env' where
      "update_vars ev (dict_set k v existing) (env(k \<mapsto> v)) = (Inr merged, env')"
      by blast
    with False p set1 have "update_vars (p # ev) existing env = (Inr merged, env')"
      by (simp del: fun_upd_apply)
    then show ?thesis by blast
  qed
qed

lemma write_entries_returns:
  "\<forall>e \<in> set entries. utf8_encodable (env_line e) \<Longrightarrow>
   \<exists>content. write_entries entries written = (None, content)"
  by (induction entries arbitrary: written) simp_all

lemma save_env_vars_returns:
  assumes "\<forall>e \<in> set env_vars. snd e \<noteq> [] \<longrightarrow>
             fst e \<noteq> [] \<and> 61 \<notin> set (fst e) \<and> 0 \<notin> set (fst e @ snd e) \<and>
             utf8_encodable (fst e @ snd e)"
    and "\<forall>content. dotenv_file w = Some content \<longrightarrow> utf8_encodable content"
  shows "fst (save_env_vars env_vars w) = Inr SAVED"
proof -
  obtain old where old: "read_env (dotenv_file w) = Inr old"
    using read_env_total by blast
  have ok: "\<forall>e \<in> set env_vars. snd e \<noteq> [] \<longrightarrow>
             fst e \<noteq> [] \<and> 61 \<notin> set (fst e) \<and> env_encodable (fst e) \<and> env_encodable (snd e)"
  proof (intro ballI impI)
    fix e assume "e \<in> set env_vars" "snd e \<noteq> []"
    with assms(1) have "fst e \<noteq> []" "61 \<notin> set (fst e)" "0 \<notin> set (fst e @ snd e)"
      "utf8_encodable (fst e @ snd e)" by blast+
    with encodable_parts(1,2) [of "fst e" "snd e"]
    show "fst e \<noteq> [] \<and> 61 \<notin> set (fst e) \<and> env_encodable (fst e) \<and> env_encodable (snd e)"
      by blast
  qed
  from update_vars_returns [OF ok, of old "environ w"]
  obtain merged env' where upd: "update_vars env_vars old (environ w) = (Inr merged, env')"
    by blast
  have "\<forall>e \<in> set merged. utf8_encodable (env_line e)"
  proof
    fix e assume "e \<in> set merged"
    with update_vars_merged [OF upd]
    have "(e \<in> set env_vars \<and> snd e \<noteq> []) \<or> e \<in> set old" by blast
    then show "utf8_encodable (env_line e)"
    proof
      assume "e \<in> set env_vars \<and> snd e \<noteq> []"
      with assms(1) have "0 \<notin> set (fst e @ snd e)" "utf8_encodable (fst e @ snd e)"
        by blast+
      from encodable_parts(3) [OF this] show ?thesis by simp
    next
      assume e: "e \<in> set old"
      show ?thesis
      proof (cases "dotenv_file w")
        case None
        with old e show ?thesis by (simp add: read_env_def)
      next
        case (Some content)
        with assms(2) old e show ?thesis by (auto intro: read_env_encodable)
      qed
    qed
  qed
  from write_entries_returns [OF this, of "[]"]
  obtain content where "write_entries merged [] = (None, content)" by blast
  with old upd show ?thesis by (simp add: save_env_vars_def)
qed

end
